theory Spec2Isabelle
  imports Main "HOL-Library.Multiset" "HOL-Library.Option_ord"
begin

section \<open>JavaScript values used by the services\<close>

text \<open>
  Strings are lists of 8-bit code units, read as the Latin-1 range of Unicode: white space
  and case mapping follow ECMAScript on that range. Numeric attributes (prices, volumes)
  take part in no comparison made by the modelled code and are kept as integers.
\<close>

definition isWhiteSpace :: "char \<Rightarrow> bool" where
  "isWhiteSpace c =
     (c = CHR 0x09 \<or> c = CHR 0x0A \<or> c = CHR 0x0B \<or> c = CHR 0x0C \<or> c = CHR 0x0D
      \<or> c = CHR 0x20 \<or> c = CHR 0xA0)"

definition trim :: "string \<Rightarrow> string" where
  "trim s = rev (dropWhile isWhiteSpace (rev (dropWhile isWhiteSpace s)))"

definition lowerChar :: "char \<Rightarrow> char" where
  "lowerChar c =
     (let n = (of_char c :: nat) in
      if (65 \<le> n \<and> n \<le> 90) \<or> (192 \<le> n \<and> n \<le> 222 \<and> n \<noteq> 215)
      then char_of (n + 32) else c)"

definition toLowerCase :: "string \<Rightarrow> string" where
  "toLowerCase s = map lowerChar s"

text \<open>
  \<^verbatim>\<open>Array.prototype.sort((a, b) => key(b) - key(a))\<close>: the stable sort by descending
  key (the sort of ECMAScript 2019 is stable, so the result is determined).
\<close>

definition sort_desc_by :: "('a \<Rightarrow> int) \<Rightarrow> 'a list \<Rightarrow> 'a list" where
  "sort_desc_by key xs = sort_key (\<lambda>x. - key x) xs"

text \<open>
  A \<^verbatim>\<open>Date\<close> object of a scanner record: a time value in milliseconds, or Invalid Date.
  \<^verbatim>\<open>getTime()\<close> returns the time value, or \<^verbatim>\<open>NaN\<close> (here \<open>None\<close>). \<^verbatim>\<open>new Date(ms)\<close> on a
  number keeps it when it lies in the range of time values (\<^verbatim>\<open>TimeClip\<close>) and gives
  Invalid Date otherwise.
\<close>

datatype js_date = ValidDate int | InvalidDate

definition getTime :: "js_date \<Rightarrow> int option" where
  "getTime d = (case d of ValidDate ms \<Rightarrow> Some ms | InvalidDate \<Rightarrow> None)"

definition newDate :: "int \<Rightarrow> js_date" where
  "newDate ms = (if \<bar>ms\<bar> \<le> 8640000000000000 then ValidDate ms else InvalidDate)"

text \<open>
  \<^verbatim>\<open>Array.prototype.sort(comparefn)\<close> with a comparator that may return \<^verbatim>\<open>NaN\<close>
  (\<open>None\<close>), which the sort reads as \<open>+0\<close> (\<^verbatim>\<open>SortCompare\<close>). The sort is stable, so with
  a comparator that is a consistent ordering its result is determined: it is the list built
  here by inserting the elements from the right, each before the first element it does not
  follow. With an inconsistent comparator ECMAScript leaves the order to the engine; the
  list built here is then one of the permutations, and only what holds of every permutation
  is proved of it.
\<close>

definition sortCompare :: "('a \<Rightarrow> 'a \<Rightarrow> int option) \<Rightarrow> 'a \<Rightarrow> 'a \<Rightarrow> int" where
  "sortCompare comparefn x y = (case comparefn x y of None \<Rightarrow> 0 | Some v \<Rightarrow> v)"

fun insert_sorted :: "('a \<Rightarrow> 'a \<Rightarrow> int option) \<Rightarrow> 'a \<Rightarrow> 'a list \<Rightarrow> 'a list" where
  "insert_sorted comparefn x [] = [x]"
| "insert_sorted comparefn x (y # ys) =
     (if sortCompare comparefn x y \<le> 0 then x # y # ys else y # insert_sorted comparefn x ys)"

definition js_sort :: "('a \<Rightarrow> 'a \<Rightarrow> int option) \<Rightarrow> 'a list \<Rightarrow> 'a list" where
  "js_sort comparefn xs = foldr (insert_sorted comparefn) xs []"

text \<open>\<^verbatim>\<open>arr.findIndex(p)\<close>: the first index whose element satisfies \<open>p\<close>, or \<open>-1\<close>.\<close>

fun findIndex :: "('a \<Rightarrow> bool) \<Rightarrow> 'a list \<Rightarrow> int" where
  "findIndex p [] = - 1"
| "findIndex p (x # xs) =
     (if p x then 0 else (let i = findIndex p xs in if i < 0 then - 1 else i + 1))"

text \<open>\<^verbatim>\<open>arr.filter((x, index, arr) => p(x, index, arr))\<close>.\<close>

definition filter_indexed :: "('a \<Rightarrow> nat \<Rightarrow> 'a list \<Rightarrow> bool) \<Rightarrow> 'a list \<Rightarrow> 'a list" where
  "filter_indexed p arr =
     map fst (filter (\<lambda>(x, index). p x index arr) (zip arr [0..<length arr]))"

section \<open>Record shapes (types/index.ts)\<close>

datatype network = Sui | Bnb

record Risk =
  risk_score :: int
  risk_factors :: "string list"

record CoinData =
  cd_id :: string
  cd_symbol :: string
  cd_name :: string
  cd_network :: network
  cd_contractAddress :: string
  cd_marketCap :: int
  cd_volume24h :: int
  cd_price :: int
  cd_priceChange24h :: int
  cd_launchTime :: js_date
  cd_dextoolsUrl :: "string option"
  cd_dexscreenerUrl :: "string option"
  cd_coinmarketcapUrl :: "string option"
  cd_coingeckoUrl :: "string option"
  cd_holders :: "int option"
  cd_transactions24h :: "int option"
  cd_liquidity :: "int option"
  cd_totalSupply :: "int option"
  cd_circulatingSupply :: "int option"
  cd_verified :: "bool option"
  cd_risk :: "Risk option"

datatype sentiment = Positive | Negative | Neutral

text \<open>
  The declared type of \<^verbatim>\<open>NewsItem.network\<close> is \<^verbatim>\<open>"sui" | "bnb"\<close>, but the news
  sources build their items from untyped payloads and write \<^verbatim>\<open>"general"\<close> there, so
  the field is a string here.
\<close>

record NewsItem =
  ni_id :: string
  ni_title :: string
  ni_description :: string
  ni_url :: string
  ni_publishedAt :: int
  ni_coinSymbol :: string
  ni_network :: string
  ni_source :: string
  ni_tokenAddress :: "string option"
  ni_priceChange :: "int option"
  ni_volume :: "int option"
  ni_sentiment :: "sentiment option"
  ni_tags :: "string list option"

record 'a ApiResponse =
  success :: bool
  data :: "'a option"
  error :: "string option"

section \<open>OnchainPairScannerService: removeDuplicatesAndSort\<close>

text \<open>The comparator \<^verbatim>\<open>(a, b) => b.launchTime.getTime() - a.launchTime.getTime()\<close>.\<close>

definition compareLaunchTime :: "CoinData \<Rightarrow> CoinData \<Rightarrow> int option" where
  "compareLaunchTime a b =
     (case (getTime (cd_launchTime b), getTime (cd_launchTime a)) of
        (Some tb, Some ta) \<Rightarrow> Some (tb - ta)
      | _ \<Rightarrow> None)"

definition removeDuplicatesAndSort :: "CoinData list \<Rightarrow> CoinData list" where
  "removeDuplicatesAndSort coins =
     (let uniqueCoins =
        filter_indexed
          (\<lambda>coin index arr.
             findIndex (\<lambda>c. cd_contractAddress c = cd_contractAddress coin) arr = int index)
          coins
      in js_sort compareLaunchTime uniqueCoins)"

text \<open>
  The filter of \<^verbatim>\<open>removeDuplicatesAndSort\<close> for an arbitrary key: an element stays when
  it is the first of the array with its key.
\<close>

definition first_by :: "('a \<Rightarrow> 'k) \<Rightarrow> 'a list \<Rightarrow> 'a list" where
  "first_by k xs = filter_indexed (\<lambda>x i arr. findIndex (\<lambda>c. k c = k x) arr = int i) xs"


definition launchTimeValid :: "CoinData \<Rightarrow> bool" where
  "launchTimeValid c = (getTime (cd_launchTime c) \<noteq> None)"

text \<open>A pair record with a valid launch date, for concrete runs.\<close>

definition exampleCoin :: "string \<Rightarrow> int \<Rightarrow> CoinData" where
  "exampleCoin addr t =
     \<lparr>cd_id = addr, cd_symbol = ''AAA/WBNB'', cd_name = ''Token A / Wrapped BNB'',
      cd_network = Bnb, cd_contractAddress = addr, cd_marketCap = 0, cd_volume24h = 0,
      cd_price = 0, cd_priceChange24h = 0, cd_launchTime = ValidDate t, cd_dextoolsUrl = None,
      cd_dexscreenerUrl = None, cd_coinmarketcapUrl = None, cd_coingeckoUrl = None,
      cd_holders = None, cd_transactions24h = None, cd_liquidity = None,
      cd_totalSupply = None, cd_circulatingSupply = None, cd_verified = Some False,
      cd_risk = None\<rparr>"

section \<open>EnhancedCryptoNewsService\<close>

text \<open>
  Every source method catches its own errors and answers with an \<^verbatim>\<open>ApiResponse\<close>;
  the answers of the sources are the parameters of the functions below.
  \<^verbatim>\<open>Promise.allSettled\<close> wraps each answer in a settled result.
\<close>

datatype 'a settled = Fulfilled 'a | Rejected

text \<open>\<^verbatim>\<open>removeDuplicates\<close>: the filter with its \<^verbatim>\<open>seen\<close> set.\<close>

fun removeDuplicates_filter :: "string set \<Rightarrow> NewsItem list \<Rightarrow> NewsItem list" where
  "removeDuplicates_filter seen [] = []"
| "removeDuplicates_filter seen (item # rest) =
     (let key = trim (toLowerCase (ni_title item)) in
      if key \<in> seen then removeDuplicates_filter seen rest
      else item # removeDuplicates_filter (insert key seen) rest)"

definition removeDuplicates :: "NewsItem list \<Rightarrow> NewsItem list" where
  "removeDuplicates news = removeDuplicates_filter {} news"

text \<open>\<^verbatim>\<open>${x}\<close> of an optional string inside a template literal.\<close>

definition template_str :: "string option \<Rightarrow> string" where
  "template_str v = (case v of None \<Rightarrow> ''undefined'' | Some s \<Rightarrow> s)"

text \<open>\<^verbatim>\<open>r.success && r.data && r.data.length > 0\<close>.\<close>

definition has_items :: "NewsItem list ApiResponse \<Rightarrow> bool" where
  "has_items r = (success r \<and> (case data r of None \<Rightarrow> False | Some d \<Rightarrow> d \<noteq> []))"

text \<open>\<^verbatim>\<open>r.data || []\<close>.\<close>

definition data_or_empty :: "'a list ApiResponse \<Rightarrow> 'a list" where
  "data_or_empty r = (case data r of None \<Rightarrow> [] | Some d \<Rightarrow> d)"

definition getGeneralCryptoNews ::
  "NewsItem list ApiResponse \<Rightarrow> NewsItem list ApiResponse \<Rightarrow> NewsItem list ApiResponse" where
  "getGeneralCryptoNews cryptoPanicResult coinTelegraphResult =
     (if has_items cryptoPanicResult then cryptoPanicResult
      else if has_items coinTelegraphResult then coinTelegraphResult
      else \<lparr>success = False, data = None,
             error = Some (''Both CryptoPanic and CoinTelegraph failed. CryptoPanic: ''
                           @ template_str (error cryptoPanicResult)
                           @ '', CoinTelegraph: ''
                           @ template_str (error coinTelegraphResult))\<rparr>)"

text \<open>
  The contribution of one settled source to \<^verbatim>\<open>suiNews\<close>:
  \<^verbatim>\<open>if (r.status === "fulfilled" && r.value.success) suiNews = [...suiNews, ...(r.value.data || [])]\<close>.
\<close>

definition settled_items :: "NewsItem list ApiResponse settled \<Rightarrow> NewsItem list" where
  "settled_items r =
     (case r of
        Fulfilled v \<Rightarrow> (if success v then data_or_empty v else [])
      | Rejected \<Rightarrow> [])"

definition getSuiNews ::
  "NewsItem list ApiResponse settled \<Rightarrow> NewsItem list ApiResponse settled
     \<Rightarrow> NewsItem list ApiResponse" where
  "getSuiNews newsApiResult googleRssResult =
     (let suiNews = [];
          suiNews = suiNews @ settled_items newsApiResult;
          suiNews = suiNews @ settled_items googleRssResult;
          uniqueSuiNews = removeDuplicates suiNews
      in \<lparr>success = True, data = Some uniqueSuiNews, error = None\<rparr>)"

record AllNews =
  general :: "NewsItem list"
  sui :: "NewsItem list"
  combined :: "NewsItem list"

definition getAllNews ::
  "NewsItem list ApiResponse \<Rightarrow> NewsItem list ApiResponse
     \<Rightarrow> NewsItem list ApiResponse settled \<Rightarrow> NewsItem list ApiResponse settled
     \<Rightarrow> AllNews ApiResponse" where
  "getAllNews cryptoPanicResult coinTelegraphResult newsApiResult googleRssResult =
     (let generalResult = getGeneralCryptoNews cryptoPanicResult coinTelegraphResult;
          suiResult = getSuiNews newsApiResult googleRssResult;
          generalNews = (if success generalResult then data_or_empty generalResult else []);
          suiNews = (if success suiResult then data_or_empty suiResult else []);
          combinedNews = sort_desc_by ni_publishedAt (generalNews @ suiNews)
      in \<lparr>success = True,
          data = Some \<lparr>general = generalNews, sui = suiNews, combined = combinedNews\<rparr>,
          error = None\<rparr>)"

text \<open>The dedup key of a news item: its title, lower-cased and trimmed.\<close>

definition normalizedTitle :: "NewsItem \<Rightarrow> string" where
  "normalizedTitle item = trim (toLowerCase (ni_title item))"

text \<open>A news item as the sources build it, for concrete runs.\<close>

definition exampleNews :: "string \<Rightarrow> string \<Rightarrow> string \<Rightarrow> int \<Rightarrow> NewsItem" where
  "exampleNews i t net p =
     \<lparr>ni_id = i, ni_title = t, ni_description = '''', ni_url = ''https://example.org/a'',
      ni_publishedAt = p, ni_coinSymbol = (if net = ''sui'' then ''SUI'' else ''''),
      ni_network = net, ni_source = (if net = ''sui'' then ''NewsAPI'' else ''CryptoPanic''),
      ni_tokenAddress = Some '''', ni_priceChange = Some 0, ni_volume = Some 0,
      ni_sentiment = None, ni_tags = None\<rparr>"

section \<open>OnchainPairScannerService: parseSuiEvent\<close>

text \<open>
  The raw event is untyped in the source. The model has the fields the parser reads; a field
  is absent (\<^verbatim>\<open>undefined\<close> or \<^verbatim>\<open>null\<close>) or a string, and \<^verbatim>\<open>token_x\<close> and
  \<^verbatim>\<open>token_y\<close> are absent or objects with optional string members. \<^verbatim>\<open>timestampMs\<close> is a
  string too: the Sui client declares it as \<^verbatim>\<open>timestampMs?: string | null\<close> and delivers the
  milliseconds in decimal digits. An exception raised inside the \<^verbatim>\<open>try\<close> block is the
  value \<open>Threw\<close>; the \<^verbatim>\<open>catch\<close> turns it into \<^verbatim>\<open>null\<close>.
\<close>

datatype 'a attempt = Threw | Returned 'a

record SuiToken =
  tok_symbol :: "string option"
  tok_name :: "string option"

record SuiParsedJson =
  pj_token_x :: "SuiToken option"
  pj_token_y :: "SuiToken option"
  pj_pair :: "string option"
  pj_coin_type_a :: "string option"
  pj_coin_type_b :: "string option"
  pj_coin_type :: "string option"
  pj_pool_id :: "string option"

record SuiEventId =
  txDigest :: "string option"
  eventSeq :: "string option"

record SuiEvent =
  ev_id :: "SuiEventId option"
  ev_timestampMs :: "string option"
  ev_parsedJson :: "SuiParsedJson option"
  ev_type :: "string option"

text \<open>Truthiness of an optional string, \<^verbatim>\<open>a || "literal"\<close>, and the string under a truthy guard.\<close>

definition truthy :: "string option \<Rightarrow> bool" where
  "truthy v = (case v of None \<Rightarrow> False | Some s \<Rightarrow> s \<noteq> [])"

definition or_str :: "string option \<Rightarrow> string \<Rightarrow> string" where
  "or_str v d = (case v of None \<Rightarrow> d | Some s \<Rightarrow> if s = [] then d else s)"

definition str_of :: "string option \<Rightarrow> string" where
  "str_of v = (case v of None \<Rightarrow> [] | Some s \<Rightarrow> s)"

text \<open>\<^verbatim>\<open>s.split("::")\<close>, \<^verbatim>\<open>arr.pop()\<close> on the non-empty result, \<^verbatim>\<open>s.slice(-n)\<close>.\<close>

fun split_colons :: "string \<Rightarrow> string \<Rightarrow> string list" where
  "split_colons acc [] = [rev acc]"
| "split_colons acc [c] = [rev (c # acc)]"
| "split_colons acc (c # d # rest) =
     (if c = CHR '':'' \<and> d = CHR '':'' then rev acc # split_colons [] rest
      else split_colons (c # acc) (d # rest))"

definition split_on_colons :: "string \<Rightarrow> string list" where
  "split_on_colons s = split_colons [] s"

definition pop :: "string list \<Rightarrow> string option" where
  "pop xs = (case rev xs of [] \<Rightarrow> None | x # _ \<Rightarrow> Some x)"

definition slice_last :: "nat \<Rightarrow> string \<Rightarrow> string" where
  "slice_last n s = drop (length s - n) s"

text \<open>The decimal digits of a non-negative integer, as a template literal prints it.\<close>

definition digit_char :: "nat \<Rightarrow> char" where
  "digit_char d = ''0123456789'' ! (d mod 10)"

function show_nat :: "nat \<Rightarrow> string" where
  "show_nat n =
     (if n < 10 then [digit_char n] else show_nat (n div 10) @ [digit_char (n mod 10)])"
  by pat_completeness auto
termination
  by (relation "measure id") auto

declare show_nat.simps [simp del]

text \<open>\<^verbatim>\<open>event?.f\<close>, \<^verbatim>\<open>ev.id?.txDigest\<close>, and \<^verbatim>\<open>ev.id.txDigest\<close>, which throws without \<^verbatim>\<open>ev.id\<close>.\<close>

definition fld :: "(SuiParsedJson \<Rightarrow> 'a option) \<Rightarrow> SuiParsedJson option \<Rightarrow> 'a option" where
  "fld f event = (case event of None \<Rightarrow> None | Some e \<Rightarrow> f e)"

definition id_opt :: "(SuiEventId \<Rightarrow> string option) \<Rightarrow> SuiEvent \<Rightarrow> string option" where
  "id_opt f ev = (case ev_id ev of None \<Rightarrow> None | Some i \<Rightarrow> f i)"

definition id_txDigest :: "SuiEvent \<Rightarrow> string option attempt" where
  "id_txDigest ev = (case ev_id ev of None \<Rightarrow> Threw | Some i \<Rightarrow> Returned (txDigest i))"

text \<open>\<^verbatim>\<open>primary || ev.id.txDigest\<close>: the member access happens only when \<open>primary\<close> is falsy.\<close>

definition or_txDigest :: "string option \<Rightarrow> SuiEvent \<Rightarrow> string option attempt" where
  "or_txDigest primary ev = (if truthy primary then Returned primary else id_txDigest ev)"

text \<open>
  The first part of the \<^verbatim>\<open>try\<close> block: the values of \<^verbatim>\<open>symbol\<close>, \<^verbatim>\<open>name\<close> and
  \<^verbatim>\<open>contractAddress\<close> when the chain of \<^verbatim>\<open>if\<close>/\<^verbatim>\<open>else if\<close> is left.
\<close>

type_synonym sui_fields = "string \<times> string \<times> string option"

definition parseSuiEvent_fields :: "SuiEvent \<Rightarrow> sui_fields attempt" where
  "parseSuiEvent_fields ev =
     (let event = ev_parsedJson ev;
          symbol = ''UNKNOWN'';
          name = ''Unknown Token'';
          contractAddress = Some (or_str (id_opt txDigest ev) '''')
      in
      if fld pj_token_x event \<noteq> None \<and> fld pj_token_y event \<noteq> None then
        (case (fld pj_token_x event, fld pj_token_y event) of
           (Some token_x, Some token_y) \<Rightarrow>
             (case or_txDigest (fld pj_pair event) ev of
                Threw \<Rightarrow> Threw
              | Returned contractAddress \<Rightarrow>
                  Returned
                    (or_str (tok_symbol token_x) ''UNK'' @ ''/'' @ or_str (tok_symbol token_y) ''UNK'',
                     or_str (tok_name token_x) ''Unknown'' @ '' / ''
                       @ or_str (tok_name token_y) ''Unknown'',
                     contractAddress))
         | _ \<Rightarrow> Threw)
      else if truthy (fld pj_coin_type_a event) \<and> truthy (fld pj_coin_type_b event) then
        (let symbolA = or_str (pop (split_on_colons (str_of (fld pj_coin_type_a event)))) ''UNK'';
             symbolB = or_str (pop (split_on_colons (str_of (fld pj_coin_type_b event)))) ''UNK''
         in case or_txDigest (fld pj_pool_id event) ev of
              Threw \<Rightarrow> Threw
            | Returned contractAddress \<Rightarrow>
                Returned (symbolA @ ''/'' @ symbolB, symbolA @ '' / '' @ symbolB, contractAddress))
      else if truthy (fld pj_coin_type event) then
        (let symbol = or_str (pop (split_on_colons (str_of (fld pj_coin_type event)))) ''UNKNOWN''
         in Returned (symbol, symbol, fld pj_coin_type event))
      else if truthy (fld pj_pool_id event) then
        Returned (''POOL_'' @ slice_last 8 (str_of (fld pj_pool_id event)),
                  ''Pool '' @ slice_last 8 (str_of (fld pj_pool_id event)),
                  fld pj_pool_id event)
      else if truthy (ev_type ev) then
        (let typeParts = split_on_colons (str_of (ev_type ev)) in
         if length typeParts \<ge> 3 then
           (case id_txDigest ev of
              Threw \<Rightarrow> Threw
            | Returned None \<Rightarrow> Threw
            | Returned (Some digest) \<Rightarrow>
                Returned ((typeParts ! 2) @ ''_'' @ slice_last 6 digest,
                          (typeParts ! 2) @ '' Event'',
                          contractAddress))
         else Returned (symbol, name, contractAddress))
      else Returned (symbol, name, contractAddress))"

text \<open>
  \<^verbatim>\<open>new Date(s)\<close> on a string parses it as a date (\<^verbatim>\<open>Date.parse\<close>). ECMAScript fixes the
  parse of the ISO format only and leaves every other string to the engine, so the parse is
  a parameter: \<open>dateParse s\<close> is the time value read from \<open>s\<close>, or \<open>None\<close> for
  \<^verbatim>\<open>NaN\<close>. (On V8 a string of thirteen decimal digits, as the Sui client delivers it, is
  no date: the parse is \<^verbatim>\<open>NaN\<close>.)
\<close>

definition newDate_string :: "(string \<Rightarrow> int option) \<Rightarrow> string \<Rightarrow> js_date" where
  "newDate_string dateParse s = (case dateParse s of None \<Rightarrow> InvalidDate | Some ms \<Rightarrow> newDate ms)"

text \<open>
  \<^verbatim>\<open>parseSuiEvent\<close>. \<open>t0\<close> and \<open>t1\<close> are the readings of \<^verbatim>\<open>Date.now()\<close> at the first
  line and where the identifier is built (each is read only when the event lacks the field).
  \<^verbatim>\<open>eventTime\<close> is the string \<^verbatim>\<open>ev.timestampMs\<close> when that is truthy and the number
  \<^verbatim>\<open>Date.now()\<close> otherwise, and \<^verbatim>\<open>new Date(eventTime)\<close> is built from the one or the other.
\<close>

definition parseSuiEvent :: "(string \<Rightarrow> int option) \<Rightarrow> nat \<Rightarrow> nat \<Rightarrow> SuiEvent \<Rightarrow> CoinData option" where
  "parseSuiEvent dateParse t0 t1 ev =
     (let launchTime =
            (if truthy (ev_timestampMs ev) then newDate_string dateParse (str_of (ev_timestampMs ev))
             else newDate (int t0))
      in case parseSuiEvent_fields ev of
           Threw \<Rightarrow> None
         | Returned (symbol, name, contractAddress) \<Rightarrow>
             if \<not> truthy contractAddress then None
             else
               Some \<lparr>cd_id = str_of contractAddress @ ''-''
                              @ or_str (id_opt eventSeq ev) (show_nat t1),
                     cd_symbol = symbol,
                     cd_name = name,
                     cd_network = Sui,
                     cd_contractAddress = str_of contractAddress,
                     cd_marketCap = 0,
                     cd_volume24h = 0,
                     cd_price = 0,
                     cd_priceChange24h = 0,
                     cd_launchTime = launchTime,
                     cd_dextoolsUrl =
                       Some (''https://www.dextools.io/app/en/sui/pair-explorer/''
                             @ str_of contractAddress),
                     cd_dexscreenerUrl =
                       Some (''https://dexscreener.com/sui/'' @ str_of contractAddress),
                     cd_coinmarketcapUrl = None,
                     cd_coingeckoUrl = None,
                     cd_holders = None,
                     cd_transactions24h = None,
                     cd_liquidity = None,
                     cd_totalSupply = None,
                     cd_circulatingSupply = None,
                     cd_verified = Some False,
                     cd_risk = None\<rparr>)"

text \<open>
  The decoder as the design describes it: four shape matchers, each answering with decoded
  fields or with no match, tried in priority order, and a final fallback that derives a
  synthetic symbol from the event's type path and transaction digest.
\<close>

definition default_address :: "SuiEvent \<Rightarrow> string option" where
  "default_address ev = Some (or_str (id_opt txDigest ev) '''')"

definition match_token_pair :: "SuiEvent \<Rightarrow> sui_fields attempt option" where
  "match_token_pair ev =
     (case (fld pj_token_x (ev_parsedJson ev), fld pj_token_y (ev_parsedJson ev)) of
        (Some token_x, Some token_y) \<Rightarrow>
          Some (case or_txDigest (fld pj_pair (ev_parsedJson ev)) ev of
                  Threw \<Rightarrow> Threw
                | Returned a \<Rightarrow>
                    Returned
                      (or_str (tok_symbol token_x) ''UNK'' @ ''/''
                         @ or_str (tok_symbol token_y) ''UNK'',
                       or_str (tok_name token_x) ''Unknown'' @ '' / ''
                         @ or_str (tok_name token_y) ''Unknown'',
                       a))
      | _ \<Rightarrow> None)"

definition match_coin_type_pair :: "SuiEvent \<Rightarrow> sui_fields attempt option" where
  "match_coin_type_pair ev =
     (let a = fld pj_coin_type_a (ev_parsedJson ev); b = fld pj_coin_type_b (ev_parsedJson ev) in
      if truthy a \<and> truthy b then
        Some (let symbolA = or_str (pop (split_on_colons (str_of a))) ''UNK'';
                  symbolB = or_str (pop (split_on_colons (str_of b))) ''UNK''
              in case or_txDigest (fld pj_pool_id (ev_parsedJson ev)) ev of
                   Threw \<Rightarrow> Threw
                 | Returned addr \<Rightarrow>
                     Returned (symbolA @ ''/'' @ symbolB, symbolA @ '' / '' @ symbolB, addr))
      else None)"

definition match_coin_type :: "SuiEvent \<Rightarrow> sui_fields attempt option" where
  "match_coin_type ev =
     (let t = fld pj_coin_type (ev_parsedJson ev) in
      if truthy t then
        Some (let symbol = or_str (pop (split_on_colons (str_of t))) ''UNKNOWN''
              in Returned (symbol, symbol, t))
      else None)"

definition match_pool_id :: "SuiEvent \<Rightarrow> sui_fields attempt option" where
  "match_pool_id ev =
     (let p = fld pj_pool_id (ev_parsedJson ev) in
      if truthy p then
        Some (Returned (''POOL_'' @ slice_last 8 (str_of p), ''Pool '' @ slice_last 8 (str_of p), p))
      else None)"

definition synthetic_fallback :: "SuiEvent \<Rightarrow> sui_fields attempt" where
  "synthetic_fallback ev =
     (let typeParts = split_on_colons (str_of (ev_type ev)) in
      if truthy (ev_type ev) \<and> length typeParts \<ge> 3 then
        (case id_txDigest ev of
           Returned (Some digest) \<Rightarrow>
             Returned ((typeParts ! 2) @ ''_'' @ slice_last 6 digest,
                       (typeParts ! 2) @ '' Event'',
                       default_address ev)
         | _ \<Rightarrow> Threw)
      else Returned (''UNKNOWN'', ''Unknown Token'', default_address ev))"

fun first_match :: "(SuiEvent \<Rightarrow> sui_fields attempt option) list \<Rightarrow> SuiEvent \<Rightarrow> sui_fields attempt" where
  "first_match [] ev = synthetic_fallback ev"
| "first_match (m # ms) ev = (case m ev of Some r \<Rightarrow> r | None \<Rightarrow> first_match ms ev)"

definition decode_in_priority_order :: "SuiEvent \<Rightarrow> sui_fields attempt" where
  "decode_in_priority_order ev =
     first_match [match_token_pair, match_coin_type_pair, match_coin_type, match_pool_id] ev"

text \<open>
  Events for concrete runs, and the date parse of an engine for which the millisecond strings
  of the Sui client are no dates.
\<close>

definition noDateInDigits :: "string \<Rightarrow> int option" where
  "noDateInDigits s = None"

definition emptyPayload :: SuiParsedJson where
  "emptyPayload =
     \<lparr>pj_token_x = None, pj_token_y = None, pj_pair = None, pj_coin_type_a = None,
      pj_coin_type_b = None, pj_coin_type = None, pj_pool_id = None\<rparr>"

definition exampleEvent :: "SuiParsedJson \<Rightarrow> SuiEvent" where
  "exampleEvent payload =
     \<lparr>ev_id = Some \<lparr>txDigest = Some ''9xKq7TDigest'', eventSeq = Some ''0''\<rparr>,
      ev_timestampMs = Some ''1700000000000'',
      ev_parsedJson = Some payload,
      ev_type = Some ''0x1eab::factory::PoolCreatedEvent''\<rparr>"

section \<open>OnchainPairScannerService: getBlockWithCache\<close>

text \<open>
  Of a chain block the scanner reads the number and the timestamp; the fallback block it
  builds has these and a hash. The cache is a JavaScript \<^verbatim>\<open>Map\<close>: an association list in
  insertion order, where setting a key that is present keeps its place.
\<close>

record Block =
  blk_number :: nat
  blk_timestamp :: nat
  blk_hash :: string

type_synonym block_cache = "(nat \<times> Block) list"

definition cache_has :: "nat \<Rightarrow> block_cache \<Rightarrow> bool" where
  "cache_has k m = (map_of m k \<noteq> None)"

definition cache_get :: "nat \<Rightarrow> block_cache \<Rightarrow> Block option" where
  "cache_get k m = map_of m k"

definition cache_delete :: "nat \<Rightarrow> block_cache \<Rightarrow> block_cache" where
  "cache_delete k m = filter (\<lambda>e. fst e \<noteq> k) m"

fun cache_set :: "nat \<Rightarrow> Block \<Rightarrow> block_cache \<Rightarrow> block_cache" where
  "cache_set k v [] = [(k, v)]"
| "cache_set k v (e # m) = (if fst e = k then (k, v) # m else e # cache_set k v m)"

text \<open>\<^verbatim>\<open>m.keys().next().value\<close>: the first key in insertion order, if any.\<close>

definition cache_first_key :: "block_cache \<Rightarrow> nat option" where
  "cache_first_key m = (case m of [] \<Rightarrow> None | e # _ \<Rightarrow> Some (fst e))"

text \<open>
  The caching step:
  \<^verbatim>\<open>if (this.blockCache.size > 100) { delete the first key }; this.blockCache.set(blockNumber, block)\<close>.
\<close>

definition cache_block :: "nat \<Rightarrow> Block \<Rightarrow> block_cache \<Rightarrow> block_cache" where
  "cache_block blockNumber block cache =
     (let cache =
        (if length cache > 100 then
           (case cache_first_key cache of
              None \<Rightarrow> cache
            | Some firstKey \<Rightarrow> cache_delete firstKey cache)
         else cache)
      in cache_set blockNumber block cache)"

text \<open>
  What one call of \<^verbatim>\<open>bnbProvider.getBlock\<close> does: it resolves to a block or to
  \<^verbatim>\<open>null\<close>, or it rejects with a rate-limit error (code \<^verbatim>\<open>BAD_DATA\<close> or a message with
  "Too Many Requests") or with another error.
\<close>

datatype rpc_answer = Got Block | GotNull | RateLimited | OtherError

text \<open>
  The retry loop \<^verbatim>\<open>while (retries > 0 && !block)\<close>, run against the answers the provider
  gives to the successive calls. A \<^verbatim>\<open>null\<close> answer leaves \<^verbatim>\<open>retries\<close> as it is, so the
  loop need not end: \<open>None\<close> says that it is still running when the answers are used up.
  Otherwise the loop is left with a block or \<^verbatim>\<open>null\<close>, or by the rethrown error.
\<close>

fun fetch_with_retry ::
  "nat \<Rightarrow> nat \<Rightarrow> rpc_answer list \<Rightarrow> block_cache \<Rightarrow> (Block option attempt \<times> block_cache) option" where
  "fetch_with_retry blockNumber retries [] cache =
     (if retries > 0 then None else Some (Returned None, cache))"
| "fetch_with_retry blockNumber retries (answer # answers) cache =
     (if retries > 0 then
        (case answer of
           Got block \<Rightarrow> Some (Returned (Some block), cache_block blockNumber block cache)
         | GotNull \<Rightarrow> fetch_with_retry blockNumber retries answers cache
         | RateLimited \<Rightarrow> fetch_with_retry blockNumber (retries - 1) answers cache
         | OtherError \<Rightarrow> Some (Threw, cache))
      else Some (Returned None, cache))"

text \<open>
  \<^verbatim>\<open>getBlockWithCache\<close>. \<open>now\<close> is \<^verbatim>\<open>Date.now()\<close> in the \<^verbatim>\<open>catch\<close> block. The pause
  that spaces the requests changes no value and is left out.
\<close>

definition getBlockWithCache ::
  "nat \<Rightarrow> nat \<Rightarrow> rpc_answer list \<Rightarrow> block_cache \<Rightarrow> (Block option \<times> block_cache) option" where
  "getBlockWithCache now blockNumber answers cache =
     (if cache_has blockNumber cache then Some (cache_get blockNumber cache, cache)
      else
        (case fetch_with_retry blockNumber 3 answers cache of
           None \<Rightarrow> None
         | Some (Returned block, cache') \<Rightarrow> Some (block, cache')
         | Some (Threw, cache') \<Rightarrow>
             Some (Some \<lparr>blk_number = blockNumber, blk_timestamp = now div 1000,
                          blk_hash = ''0x0''\<rparr>,
                   cache')))"

text \<open>
  The block lookups of a scanner, one after the other, each with its clock reading, its
  block number and the provider's answers; the cache starts empty with the service.
\<close>

fun lookups :: "(nat \<times> nat \<times> rpc_answer list) list \<Rightarrow> block_cache \<Rightarrow> block_cache option" where
  "lookups [] cache = Some cache"
| "lookups ((now, blockNumber, answers) # calls) cache =
     (case getBlockWithCache now blockNumber answers cache of
        None \<Rightarrow> None
      | Some (block, cache') \<Rightarrow> lookups calls cache')"

definition exampleBlock :: "nat \<Rightarrow> Block" where
  "exampleBlock n = \<lparr>blk_number = n, blk_timestamp = 1700000000 + 3 * n, blk_hash = ''0xb10c''\<rparr>"

definition exampleLookups :: "nat \<Rightarrow> (nat \<times> nat \<times> rpc_answer list) list" where
  "exampleLookups n = map (\<lambda>i. (1700000000000, i, [RateLimited, Got (exampleBlock i)])) [0..<n]"

text \<open>The invariant of the cache: at most 101 entries, each key once.\<close>

definition cache_ok :: "block_cache \<Rightarrow> bool" where
  "cache_ok cache = (length cache \<le> 101 \<and> distinct (map fst cache))"

section \<open>OnchainPairScannerService: getRecentBNBPairCreations\<close>






















section \<open>Persisted models and MonitoringService\<close>

text \<open>
  A collection is the list of its documents in insertion order; documents are never deleted,
  so the position of a document identifies it (it stands for mongoose's \<^verbatim>\<open>_id\<close>). The
  paths that mongoose maintains by itself (\<^verbatim>\<open>_id\<close>, \<^verbatim>\<open>createdAt\<close>, \<^verbatim>\<open>updatedAt\<close>) are not
  part of the records. In \<^verbatim>\<open>MonitoringService\<close> a save is rejected by the schema's
  validators or by the unique index; a save that the database itself fails is caught by the
  same \<^verbatim>\<open>catch\<close> and skips the item, which is the run on the batch without that item.
\<close>

subsection \<open>models/Coin.ts\<close>

record Coin =
  c_id :: string
  c_symbol :: string
  c_name :: string
  c_network :: network
  c_contractAddress :: string
  c_marketCap :: int
  c_volume24h :: int
  c_price :: int
  c_priceChange24h :: int
  c_launchTime :: "int option"
  c_dexscreenerUrl :: "string option"
  c_coinmarketcapUrl :: "string option"
  c_coingeckoUrl :: "string option"
  c_isPosted :: bool
  c_isTelegramPosted :: bool

text \<open>
  \<^verbatim>\<open>new Coin(coinData)\<close>: the paths of the schema are copied, the others are dropped, and
  the two flags take their default \<^verbatim>\<open>false\<close>. The launch date is cast to the schema's
  \<^verbatim>\<open>Date\<close>: an Invalid Date fails the cast, which leaves the path unset (\<open>None\<close>) and
  makes the validation of the document fail.
\<close>

definition newCoin :: "CoinData \<Rightarrow> Coin" where
  "newCoin coinData =
     \<lparr>c_id = cd_id coinData,
      c_symbol = cd_symbol coinData,
      c_name = cd_name coinData,
      c_network = cd_network coinData,
      c_contractAddress = cd_contractAddress coinData,
      c_marketCap = cd_marketCap coinData,
      c_volume24h = cd_volume24h coinData,
      c_price = cd_price coinData,
      c_priceChange24h = cd_priceChange24h coinData,
      c_launchTime = getTime (cd_launchTime coinData),
      c_dexscreenerUrl = cd_dexscreenerUrl coinData,
      c_coinmarketcapUrl = cd_coinmarketcapUrl coinData,
      c_coingeckoUrl = cd_coingeckoUrl coinData,
      c_isPosted = False,
      c_isTelegramPosted = False\<rparr>"

text \<open>
  The validators of \<^verbatim>\<open>CoinSchema\<close>: a required string must be non-empty and the required
  launch date must be set; the numbers and the network are present and well-typed by the
  record's types. The only unique index of the schema is on \<^verbatim>\<open>id\<close>; the index on
  \<^verbatim>\<open>contractAddress\<close> is not unique.
\<close>

datatype save_error = ValidationError | DuplicateKey

definition coinValid :: "Coin \<Rightarrow> bool" where
  "coinValid doc =
     (c_id doc \<noteq> [] \<and> c_symbol doc \<noteq> [] \<and> c_name doc \<noteq> [] \<and> c_contractAddress doc \<noteq> []
      \<and> c_launchTime doc \<noteq> None)"

definition coinSave :: "Coin \<Rightarrow> Coin list \<Rightarrow> save_error + Coin list" where
  "coinSave doc store =
     (if \<not> coinValid doc then Inl ValidationError
      else if c_id doc \<in> set (map c_id store) then Inl DuplicateKey
      else Inr (store @ [doc]))"

subsection \<open>models/News.ts\<close>

record News =
  n_id :: string
  n_title :: string
  n_description :: string
  n_url :: string
  n_publishedAt :: int
  n_coinSymbol :: string
  n_network :: string
  n_source :: string
  n_isPosted :: bool
  n_isTelegramPosted :: bool

definition newNews :: "NewsItem \<Rightarrow> News" where
  "newNews newsItem =
     \<lparr>n_id = ni_id newsItem,
      n_title = ni_title newsItem,
      n_description = ni_description newsItem,
      n_url = ni_url newsItem,
      n_publishedAt = ni_publishedAt newsItem,
      n_coinSymbol = ni_coinSymbol newsItem,
      n_network = ni_network newsItem,
      n_source = ni_source newsItem,
      n_isPosted = False,
      n_isTelegramPosted = False\<rparr>"

text \<open>
  The validators of \<^verbatim>\<open>NewsSchema\<close>: \<^verbatim>\<open>id\<close> is required, and \<^verbatim>\<open>network\<close> has
  \<^verbatim>\<open>enum: ["sui", "bnb"]\<close>. The unique index is on \<^verbatim>\<open>id\<close>; there is none on the title.
\<close>

definition newsValid :: "News \<Rightarrow> bool" where
  "newsValid doc = (n_id doc \<noteq> [] \<and> (n_network doc = ''sui'' \<or> n_network doc = ''bnb''))"

definition newsSave :: "News \<Rightarrow> News list \<Rightarrow> save_error + News list" where
  "newsSave doc store =
     (if \<not> newsValid doc then Inl ValidationError
      else if n_id doc \<in> set (map n_id store) then Inl DuplicateKey
      else Inr (store @ [doc]))"

subsection \<open>MonitoringService.saveNewCoins and saveNews\<close>

text \<open>
  The loop of \<^verbatim>\<open>saveNewCoins\<close> with its counter; an error of \<^verbatim>\<open>coin.save()\<close> is caught
  and logged inside the loop.
\<close>

fun saveNewCoins_loop :: "nat \<Rightarrow> CoinData list \<Rightarrow> Coin list \<Rightarrow> nat \<times> Coin list" where
  "saveNewCoins_loop savedCount [] store = (savedCount, store)"
| "saveNewCoins_loop savedCount (coinData # coins) store =
     (case find (\<lambda>c. c_contractAddress c = cd_contractAddress coinData
                      \<and> c_network c = cd_network coinData) store of
        None \<Rightarrow>
          (case coinSave (newCoin coinData) store of
             Inr store' \<Rightarrow> saveNewCoins_loop (savedCount + 1) coins store'
           | Inl err \<Rightarrow> saveNewCoins_loop savedCount coins store)
      | Some existingCoin \<Rightarrow> saveNewCoins_loop savedCount coins store)"

definition saveNewCoins :: "CoinData list \<Rightarrow> Coin list \<Rightarrow> nat \<times> Coin list" where
  "saveNewCoins coins store = saveNewCoins_loop 0 coins store"

text \<open>
  \<^verbatim>\<open>saveNews\<close>; its two counters are only logged. The lookup compares the stored title
  with the trimmed title of the item.
\<close>

fun saveNews :: "NewsItem list \<Rightarrow> News list \<Rightarrow> News list" where
  "saveNews [] store = store"
| "saveNews (newsItem # newsItems) store =
     (case find (\<lambda>n. n_title n = trim (ni_title newsItem)) store of
        Some existingNews \<Rightarrow> saveNews newsItems store
      | None \<Rightarrow>
          (case newsSave (newNews newsItem) store of
             Inr store' \<Rightarrow> saveNews newsItems store'
           | Inl err \<Rightarrow> saveNews newsItems store))"

text \<open>The stores after a sequence of monitoring runs, each saving one batch.\<close>

definition coin_runs :: "CoinData list list \<Rightarrow> Coin list \<Rightarrow> Coin list" where
  "coin_runs batches store = foldl (\<lambda>s batch. snd (saveNewCoins batch s)) store batches"

definition news_runs :: "NewsItem list list \<Rightarrow> News list \<Rightarrow> News list" where
  "news_runs batches store = foldl (\<lambda>s batch. saveNews batch s) store batches"

text \<open>The dedup key of an asset record.\<close>

definition coinKey :: "Coin \<Rightarrow> string \<times> network" where
  "coinKey c = (c_contractAddress c, c_network c)"

definition has_trimmed_title :: "News \<Rightarrow> bool" where
  "has_trimmed_title n = (trim (n_title n) = n_title n)"

text \<open>
  The invariant behind the lookup of \<^verbatim>\<open>saveNews\<close>: no stored title equals the trimmed title
  of a document stored after it.
\<close>

definition titles_fresh :: "News list \<Rightarrow> bool" where
  "titles_fresh store = sorted_wrt (\<lambda>a b. n_title a \<noteq> trim (n_title b)) store"

text \<open>\<^verbatim>\<open>monitorNews\<close>, on the answers of the four sources.\<close>

definition monitorNews ::
  "NewsItem list ApiResponse \<Rightarrow> NewsItem list ApiResponse
     \<Rightarrow> NewsItem list ApiResponse settled \<Rightarrow> NewsItem list ApiResponse settled
     \<Rightarrow> News list \<Rightarrow> News list" where
  "monitorNews cryptoPanicResult coinTelegraphResult newsApiResult googleRssResult store =
     (let newsResult = getAllNews cryptoPanicResult coinTelegraphResult newsApiResult googleRssResult
      in case (success newsResult, data newsResult) of
           (True, Some d) \<Rightarrow>
             (let store = (if length (general d) > 0 then saveNews (general d) store else store);
                  store = (if length (sui d) > 0 then saveNews (sui d) store else store)
              in store)
         | _ \<Rightarrow> store)"

section \<open>Publication: TweetService and TelegramService\<close>

subsection \<open>models/Tweet.ts and models/TelegramMessage.ts\<close>

text \<open>
  A publication fact is a \<^verbatim>\<open>Tweet\<close> or a \<^verbatim>\<open>TelegramMessage\<close> document. The rendered text
  and the posting time of a fact come from the message templates and the clock, which are
  outside the modelled core; the records keep the other paths the services write.
\<close>

datatype content_kind = Launch | NewsPost

record Tweet =
  tw_coinId :: "string option"
  tw_newsId :: "string option"
  tw_type :: content_kind
  tw_tweetId :: "string option"
  tw_isPosted :: bool

record TelegramMessage =
  tm_coinId :: "string option"
  tm_newsId :: "string option"
  tm_type :: content_kind
  tm_messageId :: "int option"
  tm_chatId :: "string option"
  tm_isPosted :: bool

record Database =
  db_coins :: "Coin list"
  db_news :: "News list"
  db_tweets :: "Tweet list"
  db_telegramMessages :: "TelegramMessage list"

definition emptyDatabase :: Database where
  "emptyDatabase = \<lparr>db_coins = [], db_news = [], db_tweets = [], db_telegramMessages = []\<rparr>"

text \<open>
  The sort of a query, \<^verbatim>\<open>.sort({key: -1})\<close>: descending by the key, ties keeping the
  insertion order. A document without the key comes after all others: of two optional values
  the absent one is the smaller.
\<close>

definition sort_descending :: "('a \<Rightarrow> 'k::linorder) \<Rightarrow> 'a list \<Rightarrow> 'a list" where
  "sort_descending key xs = rev (sort_key key (rev xs))"

text \<open>
  \<^verbatim>\<open>Model.find(query).sort({key: -1}).limit(n)\<close>: the positions of the selected documents,
  each with the document as loaded. The four queries of the services follow, each before the
  method that runs it.
\<close>

definition find_sorted ::
  "('d \<Rightarrow> bool) \<Rightarrow> ('d \<Rightarrow> 'k::linorder) \<Rightarrow> nat \<Rightarrow> 'd list \<Rightarrow> (nat \<times> 'd) list" where
  "find_sorted query key limit docs =
     map (\<lambda>i. (i, docs ! i))
       (take limit
          (sort_descending (\<lambda>i. key (docs ! i))
             (filter (\<lambda>i. query (docs ! i)) [0..<length docs])))"

text \<open>
  After a send that gave an identifier the services await two saves, one after the other and
  with no transaction around them: the save of the fact, then the save of the document with
  its flag set. Either can be rejected by the database; the rejection is caught and logged
  by the \<^verbatim>\<open>try\<close> block inside the loop, which goes on with the next document.
\<close>

datatype saves = BothSaved | FactSaveRejected | FlagSaveRejected

text \<open>
  The body shared by the four \<^verbatim>\<open>for\<close> loops of \<^verbatim>\<open>processNewCoinTweets\<close>,
  \<^verbatim>\<open>processNewsTweets\<close>, \<^verbatim>\<open>processNewCoinMessages\<close> and \<^verbatim>\<open>processNewsMessages\<close>: for
  each loaded document the send is attempted; when it gives an identifier, the fact is saved
  and then the document is saved with its flag set (only the modified path is written).
  \<open>send i doc\<close> is the fact to save, or \<open>None\<close> when the client returned \<^verbatim>\<open>null\<close>, and
  \<open>saved i\<close> tells how the two saves go for the document at position \<open>i\<close>: when the save of
  the fact is rejected nothing is written; when the save of the flag is rejected the fact
  stays in its collection and the document stays unflagged.
\<close>

fun post_each ::
  "(nat \<Rightarrow> 'd \<Rightarrow> 'f option) \<Rightarrow> (nat \<Rightarrow> saves) \<Rightarrow> ('d \<Rightarrow> 'd) \<Rightarrow> (nat \<times> 'd) list
     \<Rightarrow> 'd list \<times> 'f list \<Rightarrow> 'd list \<times> 'f list" where
  "post_each send saved mark [] (docs, facts) = (docs, facts)"
| "post_each send saved mark ((i, doc) # rest) (docs, facts) =
     post_each send saved mark rest
       (case send i doc of
          None \<Rightarrow> (docs, facts)
        | Some fact_doc \<Rightarrow>
            (case saved i of
               FactSaveRejected \<Rightarrow> (docs, facts)
             | FlagSaveRejected \<Rightarrow> (docs, facts @ [fact_doc])
             | BothSaved \<Rightarrow> (docs[i := mark (docs ! i)], facts @ [fact_doc])))"

text \<open>\<^verbatim>\<open>if (messageId)\<close> on the number or \<^verbatim>\<open>null\<close> that \<^verbatim>\<open>sendMessage\<close> returns.\<close>

definition truthy_num :: "int option \<Rightarrow> bool" where
  "truthy_num v = (case v of None \<Rightarrow> False | Some n \<Rightarrow> n \<noteq> 0)"

subsection \<open>TweetService\<close>

text \<open>
  \<open>twitter i\<close> is what happens to the document at position \<open>i\<close> in this cycle: what
  \<^verbatim>\<open>this.twitter.tweet\<close> returns, a tweet identifier or \<^verbatim>\<open>null\<close> (the client catches its
  own errors), and how the two saves go that follow an identifier. An exception raised
  before the send, while the text is rendered, is caught by the loop and leaves nothing
  written, as a send does that returns \<^verbatim>\<open>null\<close>; and a query that the database rejects
  ends the method with the collections as they are, which is the cycle in which every send
  returns \<^verbatim>\<open>null\<close>.
\<close>

type_synonym 'r outcome = "'r option \<times> saves"

definition coinTweet :: "(nat \<Rightarrow> string outcome) \<Rightarrow> nat \<Rightarrow> Coin \<Rightarrow> Tweet option" where
  "coinTweet twitter i coin =
     (let tweetId = fst (twitter i) in
      if truthy tweetId then
        Some \<lparr>tw_coinId = Some (c_id coin), tw_newsId = None, tw_type = Launch,
              tw_tweetId = tweetId, tw_isPosted = True\<rparr>
      else None)"

definition tweet_unpostedCoins :: "Database \<Rightarrow> (nat \<times> Coin) list" where
  "tweet_unpostedCoins db = find_sorted (\<lambda>c. c_isPosted c = False) c_launchTime 2 (db_coins db)"

definition processNewCoinTweets :: "(nat \<Rightarrow> string outcome) \<Rightarrow> Database \<Rightarrow> Database" where
  "processNewCoinTweets twitter db =
     (let unpostedCoins = tweet_unpostedCoins db;
          (coins', tweets') =
             post_each (coinTweet twitter) (\<lambda>i. snd (twitter i)) (\<lambda>coin. coin\<lparr>c_isPosted := True\<rparr>)
               unpostedCoins (db_coins db, db_tweets db)
      in db\<lparr>db_coins := coins', db_tweets := tweets'\<rparr>)"

definition newsTweet :: "(nat \<Rightarrow> string outcome) \<Rightarrow> nat \<Rightarrow> News \<Rightarrow> Tweet option" where
  "newsTweet twitter i n =
     (let tweetId = fst (twitter i) in
      if truthy tweetId then
        Some \<lparr>tw_coinId = None, tw_newsId = Some (n_id n), tw_type = NewsPost,
              tw_tweetId = tweetId, tw_isPosted = True\<rparr>
      else None)"

definition tweet_unpostedNews :: "Database \<Rightarrow> (nat \<times> News) list" where
  "tweet_unpostedNews db = find_sorted (\<lambda>n. n_isPosted n = False) n_publishedAt 1 (db_news db)"

definition processNewsTweets :: "(nat \<Rightarrow> string outcome) \<Rightarrow> Database \<Rightarrow> Database" where
  "processNewsTweets twitter db =
     (let unpostedNews = tweet_unpostedNews db;
          (news', tweets') =
             post_each (newsTweet twitter) (\<lambda>i. snd (twitter i)) (\<lambda>n. n\<lparr>n_isPosted := True\<rparr>)
               unpostedNews (db_news db, db_tweets db)
      in db\<lparr>db_news := news', db_tweets := tweets'\<rparr>)"

definition processPendingTweets ::
  "(nat \<Rightarrow> string outcome) \<Rightarrow> (nat \<Rightarrow> string outcome) \<Rightarrow> Database \<Rightarrow> Database" where
  "processPendingTweets twitterCoins twitterNews db =
     processNewsTweets twitterNews (processNewCoinTweets twitterCoins db)"

subsection \<open>TelegramService\<close>

text \<open>
  The configuration of \<^verbatim>\<open>TelegramClient\<close>, read from the environment: the channel is the
  chat of \<^verbatim>\<open>TELEGRAM_CHANNEL_ID\<close>, the group that of \<^verbatim>\<open>TELEGRAM_GROUP_ID\<close>, and nothing
  compares the two. \<open>send i\<close> is what happens to the document at position \<open>i\<close> in this cycle:
  what \<^verbatim>\<open>sendMessage\<close> returns, a message identifier or \<^verbatim>\<open>null\<close>, and how the saves go that
  follow an identifier.
\<close>

record TelegramClient =
  tg_enabled :: bool
  tg_channelId :: "string option"
  tg_groupId :: "string option"

definition coinMessage :: "TelegramClient \<Rightarrow> (nat \<Rightarrow> int outcome) \<Rightarrow> nat \<Rightarrow> Coin \<Rightarrow> TelegramMessage option" where
  "coinMessage telegram send i coin =
     (let messageId = fst (send i) in
      if truthy_num messageId then
        Some \<lparr>tm_coinId = Some (c_id coin), tm_newsId = None, tm_type = Launch,
              tm_messageId = messageId, tm_chatId = tg_channelId telegram, tm_isPosted = True\<rparr>
      else None)"

definition telegram_unpostedCoins :: "Database \<Rightarrow> (nat \<times> Coin) list" where
  "telegram_unpostedCoins db =
     find_sorted (\<lambda>c. c_isTelegramPosted c = False) c_launchTime 2 (db_coins db)"

definition processNewCoinMessages ::
  "TelegramClient \<Rightarrow> (nat \<Rightarrow> int outcome) \<Rightarrow> Database \<Rightarrow> Database" where
  "processNewCoinMessages telegram send db =
     (let unpostedCoins = telegram_unpostedCoins db;
          (coins', messages') =
             post_each (coinMessage telegram send) (\<lambda>i. snd (send i))
               (\<lambda>coin. coin\<lparr>c_isTelegramPosted := True\<rparr>)
               unpostedCoins (db_coins db, db_telegramMessages db)
      in db\<lparr>db_coins := coins', db_telegramMessages := messages'\<rparr>)"

definition newsMessage :: "TelegramClient \<Rightarrow> (nat \<Rightarrow> int outcome) \<Rightarrow> nat \<Rightarrow> News \<Rightarrow> TelegramMessage option" where
  "newsMessage telegram send i n =
     (let messageId = fst (send i) in
      if truthy_num messageId then
        Some \<lparr>tm_coinId = None, tm_newsId = Some (n_id n), tm_type = NewsPost,
              tm_messageId = messageId, tm_chatId = tg_channelId telegram, tm_isPosted = True\<rparr>
      else None)"

definition telegram_unpostedNews :: "Database \<Rightarrow> (nat \<times> News) list" where
  "telegram_unpostedNews db =
     find_sorted (\<lambda>n. n_isTelegramPosted n = False) n_publishedAt 1 (db_news db)"

definition processNewsMessages ::
  "TelegramClient \<Rightarrow> (nat \<Rightarrow> int outcome) \<Rightarrow> Database \<Rightarrow> Database" where
  "processNewsMessages telegram send db =
     (let unpostedNews = telegram_unpostedNews db;
          (news', messages') =
             post_each (newsMessage telegram send) (\<lambda>i. snd (send i))
               (\<lambda>n. n\<lparr>n_isTelegramPosted := True\<rparr>)
               unpostedNews (db_news db, db_telegramMessages db)
      in db\<lparr>db_news := news', db_telegramMessages := messages'\<rparr>)"

definition processPendingMessages ::
  "TelegramClient \<Rightarrow> (nat \<Rightarrow> int outcome) \<Rightarrow> (nat \<Rightarrow> int outcome) \<Rightarrow> Database \<Rightarrow> Database" where
  "processPendingMessages telegram sendCoins sendNews db =
     (if \<not> tg_enabled telegram then db
      else processNewsMessages telegram sendNews (processNewCoinMessages telegram sendCoins db))"

definition isNewsPostedToDestination :: "string \<Rightarrow> string option \<Rightarrow> Database \<Rightarrow> bool" where
  "isNewsPostedToDestination newsId chatId db =
     (find (\<lambda>m. tm_newsId m = Some newsId \<and> tm_chatId m = chatId \<and> tm_isPosted m = True)
        (db_telegramMessages db) \<noteq> None)"

text \<open>The news item that \<^verbatim>\<open>processGroupNews\<close> picks: the first of the twenty most recent
  ones that has no fact for the group.\<close>

definition groupNewsToPost :: "TelegramClient \<Rightarrow> Database \<Rightarrow> (nat \<times> News) option" where
  "groupNewsToPost telegram db =
     (let groupId = tg_groupId telegram;
          allNews = find_sorted
                      (\<lambda>n. n_network n = ''general'' \<or> n_network n = ''sui'' \<or> n_network n = ''bnb'')
                      n_publishedAt 20 (db_news db)
      in find (\<lambda>e. \<not> isNewsPostedToDestination (n_id (snd e)) groupId db) allNews)"

text \<open>
  \<^verbatim>\<open>processGroupNews\<close>. \<open>send i\<close> is what \<^verbatim>\<open>sendMessage\<close> returns for the news item at
  position \<open>i\<close>, and whether the save of the fact is accepted; a rejected save is rethrown
  by the method and leaves the collections as they are. The method sets no flag.
\<close>

definition processGroupNews :: "TelegramClient \<Rightarrow> (nat \<Rightarrow> int option \<times> bool) \<Rightarrow> Database \<Rightarrow> Database" where
  "processGroupNews telegram send db =
     (let groupId = tg_groupId telegram in
      if \<not> truthy groupId then db
      else
        (case groupNewsToPost telegram db of
           None \<Rightarrow> db
         | Some (i, newsToPost) \<Rightarrow>
             (let messageId = fst (send i) in
              if truthy_num messageId then
                (if snd (send i) then
                   db\<lparr>db_telegramMessages := db_telegramMessages db @
                        [\<lparr>tm_coinId = None, tm_newsId = Some (n_id newsToPost), tm_type = NewsPost,
                          tm_messageId = messageId, tm_chatId = groupId, tm_isPosted = True\<rparr>]\<rparr>
                 else db)
              else db)))"

subsection \<open>The scheduler's tasks, one at a time\<close>

datatype task =
    MonitorLaunches "CoinData list"
  | MonitorNews "NewsItem list"
  | PostTweets "nat \<Rightarrow> string outcome" "nat \<Rightarrow> string outcome"
  | PostMessages "nat \<Rightarrow> int outcome" "nat \<Rightarrow> int outcome"
  | PostGroupNews "nat \<Rightarrow> int option \<times> bool"

fun run_task :: "TelegramClient \<Rightarrow> task \<Rightarrow> Database \<Rightarrow> Database" where
  "run_task telegram (MonitorLaunches found) db = db\<lparr>db_coins := snd (saveNewCoins found (db_coins db))\<rparr>"
| "run_task telegram (MonitorNews found) db = db\<lparr>db_news := saveNews found (db_news db)\<rparr>"
| "run_task telegram (PostTweets twitterCoins twitterNews) db =
     processPendingTweets twitterCoins twitterNews db"
| "run_task telegram (PostMessages sendCoins sendNews) db =
     processPendingMessages telegram sendCoins sendNews db"
| "run_task telegram (PostGroupNews send) db = processGroupNews telegram send db"

definition run_tasks :: "TelegramClient \<Rightarrow> task list \<Rightarrow> Database \<Rightarrow> Database" where
  "run_tasks telegram tasks db = foldl (\<lambda>d t. run_task telegram t d) db tasks"

subsection \<open>Publication facts of an item for a destination\<close>

definition tweetsFor_coin :: "string \<Rightarrow> Database \<Rightarrow> Tweet list" where
  "tweetsFor_coin coinId db = filter (\<lambda>t. tw_coinId t = Some coinId) (db_tweets db)"

definition tweetsFor_news :: "string \<Rightarrow> Database \<Rightarrow> Tweet list" where
  "tweetsFor_news newsId db = filter (\<lambda>t. tw_newsId t = Some newsId) (db_tweets db)"

definition messagesFor_coin :: "string \<Rightarrow> string option \<Rightarrow> Database \<Rightarrow> TelegramMessage list" where
  "messagesFor_coin coinId chatId db =
     filter (\<lambda>m. tm_coinId m = Some coinId \<and> tm_chatId m = chatId) (db_telegramMessages db)"

definition messagesFor_news :: "string \<Rightarrow> string option \<Rightarrow> Database \<Rightarrow> TelegramMessage list" where
  "messagesFor_news newsId chatId db =
     filter (\<lambda>m. tm_newsId m = Some newsId \<and> tm_chatId m = chatId) (db_telegramMessages db)"

text \<open>
  The two conditions under which no second fact is recorded: the group, when one is
  configured, is another chat than the channel; and no task has the save of a flag rejected
  after the save of its fact.
\<close>

definition distinct_chats :: "TelegramClient \<Rightarrow> bool" where
  "distinct_chats telegram = (truthy (tg_groupId telegram) \<longrightarrow> tg_channelId telegram \<noteq> tg_groupId telegram)"

fun flags_saved :: "task \<Rightarrow> bool" where
  "flags_saved (MonitorLaunches found) = True"
| "flags_saved (MonitorNews found) = True"
| "flags_saved (PostTweets twitterCoins twitterNews) =
     (\<forall>i. snd (twitterCoins i) \<noteq> FlagSaveRejected \<and> snd (twitterNews i) \<noteq> FlagSaveRejected)"
| "flags_saved (PostMessages sendCoins sendNews) =
     (\<forall>i. snd (sendCoins i) \<noteq> FlagSaveRejected \<and> snd (sendNews i) \<noteq> FlagSaveRejected)"
| "flags_saved (PostGroupNews send) = True"

text \<open>
  The invariant of one flag-driven loop. \<open>key\<close> is the identifier of a document, \<open>flag\<close>
  its posted flag for the destination, \<open>fkey\<close> the key of a fact (if it is a fact of this
  kind), \<open>tag\<close> the fact key that the loop writes for a document and \<open>owner\<close> the
  document identifier in a fact key: identifiers are unique, no two facts have the same key,
  a document whose fact exists is flagged, and every fact belongs to a stored document.
\<close>

definition posted_once ::
  "('d \<Rightarrow> 'k) \<Rightarrow> ('d \<Rightarrow> bool) \<Rightarrow> ('f \<Rightarrow> 'x option) \<Rightarrow> ('k \<Rightarrow> 'x) \<Rightarrow> ('x \<Rightarrow> 'k)
     \<Rightarrow> 'd list \<Rightarrow> 'f list \<Rightarrow> bool" where
  "posted_once key flag fkey tag owner docs facts =
     (distinct (map key docs)
      \<and> distinct (List.map_filter fkey facts)
      \<and> (\<forall>d\<in>set docs. tag (key d) \<in> set (List.map_filter fkey facts) \<longrightarrow> flag d)
      \<and> (\<forall>x\<in>set (List.map_filter fkey facts). owner x \<in> key ` set docs))"

definition coinPair :: "TelegramMessage \<Rightarrow> (string \<times> string option) option" where
  "coinPair m = map_option (\<lambda>c. (c, tm_chatId m)) (tm_coinId m)"

definition newsPair :: "TelegramMessage \<Rightarrow> (string \<times> string option) option" where
  "newsPair m = map_option (\<lambda>n. (n, tm_chatId m)) (tm_newsId m)"

definition coinTweets_once :: "Database \<Rightarrow> bool" where
  "coinTweets_once db =
     posted_once c_id c_isPosted tw_coinId (\<lambda>k. k) (\<lambda>x. x) (db_coins db) (db_tweets db)"

definition newsTweets_once :: "Database \<Rightarrow> bool" where
  "newsTweets_once db =
     posted_once n_id n_isPosted tw_newsId (\<lambda>k. k) (\<lambda>x. x) (db_news db) (db_tweets db)"

definition coinMessages_once :: "TelegramClient \<Rightarrow> Database \<Rightarrow> bool" where
  "coinMessages_once telegram db =
     posted_once c_id c_isTelegramPosted coinPair (\<lambda>k. (k, tg_channelId telegram)) fst
       (db_coins db) (db_telegramMessages db)"

definition newsMessages_once :: "TelegramClient \<Rightarrow> Database \<Rightarrow> bool" where
  "newsMessages_once telegram db =
     posted_once n_id n_isTelegramPosted newsPair (\<lambda>k. (k, tg_channelId telegram)) fst
       (db_news db) (db_telegramMessages db)"

text \<open>Every Telegram fact is written with \<^verbatim>\<open>isPosted: true\<close>.\<close>

definition facts_posted :: "Database \<Rightarrow> bool" where
  "facts_posted db = list_all (\<lambda>m. tm_isPosted m = True) (db_telegramMessages db)"

text \<open>A configuration and tasks for concrete runs.\<close>

definition exampleTelegram :: TelegramClient where
  "exampleTelegram =
     \<lparr>tg_enabled = True, tg_channelId = Some ''@launches'', tg_groupId = Some ''-100123''\<rparr>"

definition exampleTasks :: "task list" where
  "exampleTasks =
     [MonitorLaunches [exampleCoin ''0xab'' 1000, exampleCoin ''0xcd'' 2000],
      MonitorNews [exampleNews ''news_sui_0_1'' ''Sui up'' ''sui'' 10],
      PostTweets (\<lambda>i. (Some ''1780000000000000001'', BothSaved)) (\<lambda>i. (None, BothSaved)),
      PostMessages (\<lambda>i. (Some 41, BothSaved)) (\<lambda>i. (Some 42, BothSaved)),
      PostGroupNews (\<lambda>i. (Some 43, True))]"

text \<open>
  A configuration that names one chat as channel and as group, and a run in which a news
  item is posted to the group and then to the channel.
\<close>

definition oneChatTelegram :: TelegramClient where
  "oneChatTelegram =
     \<lparr>tg_enabled = True, tg_channelId = Some ''-100123'', tg_groupId = Some ''-100123''\<rparr>"

definition oneChatTasks :: "task list" where
  "oneChatTasks =
     [MonitorNews [exampleNews ''news_sui_0_1'' ''Sui up'' ''sui'' 10],
      PostGroupNews (\<lambda>i. (Some 43, True)),
      PostMessages (\<lambda>i. (None, BothSaved)) (\<lambda>i. (Some 42, BothSaved))]"

text \<open>
  A run in which the save of a coin's flag is rejected after the save of its tweet, and the
  next cycle tweets the coin again.
\<close>

definition flagLostTasks :: "task list" where
  "flagLostTasks =
     [MonitorLaunches [exampleCoin ''0xab'' 1000],
      PostTweets (\<lambda>i. (Some ''1780000000000000001'', FlagSaveRejected)) (\<lambda>i. (None, BothSaved)),
      PostTweets (\<lambda>i. (Some ''1780000000000000002'', BothSaved)) (\<lambda>i. (None, BothSaved))]"

text \<open>
  What every task keeps: documents stay at their positions, a flag that is set stays set, and
  the facts written so far stay as they are, at the head of their collection.
\<close>

definition grows :: "Database \<Rightarrow> Database \<Rightarrow> bool" where
  "grows db db' =
     (length (db_coins db) \<le> length (db_coins db')
      \<and> length (db_news db) \<le> length (db_news db')
      \<and> (\<forall>i<length (db_coins db).
            (c_isPosted (db_coins db ! i) \<longrightarrow> c_isPosted (db_coins db' ! i))
            \<and> (c_isTelegramPosted (db_coins db ! i) \<longrightarrow> c_isTelegramPosted (db_coins db' ! i)))
      \<and> (\<forall>i<length (db_news db).
            (n_isPosted (db_news db ! i) \<longrightarrow> n_isPosted (db_news db' ! i))
            \<and> (n_isTelegramPosted (db_news db ! i) \<longrightarrow> n_isTelegramPosted (db_news db' ! i)))
      \<and> take (length (db_tweets db)) (db_tweets db') = db_tweets db
      \<and> take (length (db_telegramMessages db)) (db_telegramMessages db') = db_telegramMessages db)"

definition exampleStore :: Database where
  "exampleStore =
     run_tasks exampleTelegram
       [MonitorLaunches [exampleCoin ''0xab'' 1000, exampleCoin ''0xcd'' 2000],
        MonitorNews [exampleNews ''news_sui_0_1'' ''Sui up'' ''sui'' 10]]
       emptyDatabase"

section \<open>Facts about the JavaScript array operations\<close>

lemma sorted_sort_desc_by:
  "sorted_wrt (\<lambda>a b. key b \<le> key a) (sort_desc_by key xs)"
proof -
  have "sorted (map (\<lambda>x. - key x) (sort_key (\<lambda>x. - key x) xs))"
    by (rule sorted_sort_key)
  then show ?thesis
    by (simp add: sort_desc_by_def sorted_map)
qed

lemma mset_sort_desc_by: "mset (sort_desc_by key xs) = mset xs"
  by (simp add: sort_desc_by_def)

lemma set_sort_desc_by: "set (sort_desc_by key xs) = set xs"
  by (simp add: sort_desc_by_def)

lemma distinct_map_sort_desc_by:
  "distinct (map k (sort_desc_by key xs)) = distinct (map k xs)"
proof -
  have "mset (map k (sort_desc_by key xs)) = mset (map k xs)"
    by (simp add: mset_sort_desc_by)
  then show ?thesis by (rule mset_eq_imp_distinct_iff)
qed







text \<open>With a comparator that never tells two elements apart, the sort changes nothing.\<close>

lemma js_sort_all_equal:
  "\<forall>x\<in>set xs. \<forall>y\<in>set xs. sortCompare comparefn x y = 0 \<Longrightarrow> js_sort comparefn xs = xs"
proof (induction xs)
  case Nil
  then show ?case by (simp add: js_sort_def)
next
  case (Cons x xs)
  then have ih: "js_sort comparefn xs = xs" by simp
  from Cons.prems have "insert_sorted comparefn x xs = x # xs" by (cases xs) simp_all
  with ih show ?case by (simp add: js_sort_def)
qed

lemma set_sort_descending: "set (sort_descending key xs) = set xs"
  by (simp add: sort_descending_def)

lemma distinct_sort_descending: "distinct (sort_descending key xs) = distinct xs"
  by (simp add: sort_descending_def)



lemma map_filter_append: "List.map_filter f (xs @ ys) = List.map_filter f xs @ List.map_filter f ys"
  by (simp add: List.map_filter_def)

lemma set_map_filter: "set (List.map_filter f xs) = {y. \<exists>x\<in>set xs. f x = Some y}"
  by (force simp: List.map_filter_def image_iff)

lemma map_filter_all_None: "\<forall>x\<in>set xs. f x = None \<Longrightarrow> List.map_filter f xs = []"
  by (simp add: List.map_filter_def filter_empty_conv)

section \<open>Deduplication and ordering of one scan call\<close>



lemma zip_upt_nth: "zip xs [0..<length xs] = map (\<lambda>i. (xs ! i, i)) [0..<length xs]"
  by (rule nth_equalityI) auto

lemma filter_indexed_nth:
  "filter_indexed p xs = map (\<lambda>i. xs ! i) (filter (\<lambda>i. p (xs ! i) i xs) [0..<length xs])"
  unfolding filter_indexed_def zip_upt_nth
  by (simp add: filter_map comp_def)


lemma set_first_by_subset: "set (first_by k xs) \<subseteq> set xs"
  by (auto simp: first_by_def filter_indexed_nth)




lemma removeDuplicatesAndSort_first_by:
  "removeDuplicatesAndSort coins = js_sort compareLaunchTime (first_by cd_contractAddress coins)"
  by (simp add: removeDuplicatesAndSort_def first_by_def)




text \<open>
  When no launch date is valid, as for the events of the Move chain whose timestamp string
  the engine reads no date from, the comparator tells no two records apart and the records
  stay in the order in which they were gathered.
\<close>

lemma removeDuplicatesAndSort_invalid_dates:
  assumes "list_all (\<lambda>c. \<not> launchTimeValid c) coins"
  shows "removeDuplicatesAndSort coins = first_by cd_contractAddress coins"
proof -
  let ?u = "first_by cd_contractAddress coins"
  from assms set_first_by_subset[of cd_contractAddress coins]
  have "\<forall>c\<in>set ?u. getTime (cd_launchTime c) = None"
    by (auto simp: list_all_iff launchTimeValid_def)
  then have "\<forall>x\<in>set ?u. \<forall>y\<in>set ?u. sortCompare compareLaunchTime x y = 0"
    by (simp add: sortCompare_def compareLaunchTime_def)
  from js_sort_all_equal[OF this] show ?thesis
    by (simp add: removeDuplicatesAndSort_first_by)
qed

section \<open>News aggregation\<close>

lemma removeDuplicates_filter_keys:
  "distinct (map normalizedTitle (removeDuplicates_filter seen news))
   \<and> set (map normalizedTitle (removeDuplicates_filter seen news)) = set (map normalizedTitle news) - seen"
proof (induction news arbitrary: seen)
  case Nil
  then show ?case by simp
next
  case (Cons item rest)
  show ?case
  proof (cases "normalizedTitle item \<in> seen")
    case True
    with Cons.IH[of seen] show ?thesis
      by (auto simp: normalizedTitle_def Let_def)
  next
    case False
    with Cons.IH[of "insert (normalizedTitle item) seen"] show ?thesis
      by (auto simp: normalizedTitle_def Let_def)
  qed
qed

lemma removeDuplicates_filter_sublist:
  "set (removeDuplicates_filter seen news) \<subseteq> set news"
  by (induction news arbitrary: seen) (auto simp: Let_def)

lemma distinct_removeDuplicates: "distinct (map normalizedTitle (removeDuplicates news))"
  using removeDuplicates_filter_keys[of "{}" news] by (simp add: removeDuplicates_def)

lemma keys_removeDuplicates:
  "set (map normalizedTitle (removeDuplicates news)) = set (map normalizedTitle news)"
  using removeDuplicates_filter_keys[of "{}" news] by (simp add: removeDuplicates_def)

lemma success_getSuiNews: "success (getSuiNews a b) = True"
  by (simp add: getSuiNews_def Let_def)

lemma data_getSuiNews:
  "data (getSuiNews a b) = Some (removeDuplicates (settled_items a @ settled_items b))"
  by (simp add: getSuiNews_def Let_def)

lemma data_getAllNews:
  "data (getAllNews cp ct na gr) =
     Some \<lparr>general = (if success (getGeneralCryptoNews cp ct)
                       then data_or_empty (getGeneralCryptoNews cp ct) else []),
           sui = removeDuplicates (settled_items na @ settled_items gr),
           combined = sort_desc_by ni_publishedAt
             ((if success (getGeneralCryptoNews cp ct)
               then data_or_empty (getGeneralCryptoNews cp ct) else [])
              @ removeDuplicates (settled_items na @ settled_items gr))\<rparr>"
  by (simp add: getAllNews_def Let_def success_getSuiNews data_getSuiNews data_or_empty_def)

text \<open>
  Claim C6, as the code has it: \<^verbatim>\<open>getAllNews\<close> always answers with data; its
  chain-specific list holds no two items with the same normalized title, and its combined
  list is the general list followed by the chain-specific list, sorted by publish time
  descending. Nothing is removed when the two lists are combined: the combined list holds
  every item of both.
\<close>

theorem getAllNews_combined:
  "(case data (getAllNews cp ct na gr) of
      None \<Rightarrow> False
    | Some d \<Rightarrow>
        distinct (map normalizedTitle (sui d))
        \<and> mset (combined d) = mset (general d) + mset (sui d)
        \<and> sorted_wrt (\<lambda>a b. ni_publishedAt b \<le> ni_publishedAt a) (combined d))"
  by (simp add: data_getAllNews distinct_removeDuplicates mset_sort_desc_by sorted_sort_desc_by)

text \<open>
  A general item and a chain-specific item whose titles are equal after lower-casing and
  trimming are both in the combined list.
\<close>

theorem getAllNews_duplicate_counterexample:
  "data (getAllNews
      \<lparr>success = True, data = Some [exampleNews ''cp_1'' ''Sui rallies'' ''general'' 2000], error = None\<rparr>
      \<lparr>success = False, data = None, error = Some ''CoinTelegraph RSS error''\<rparr>
      (Fulfilled \<lparr>success = True, data = Some [exampleNews ''news_sui_0_1'' ''SUI Rallies '' ''sui'' 1000], error = None\<rparr>)
      Rejected)
   = Some \<lparr>general = [exampleNews ''cp_1'' ''Sui rallies'' ''general'' 2000],
           sui = [exampleNews ''news_sui_0_1'' ''SUI Rallies '' ''sui'' 1000],
           combined = [exampleNews ''cp_1'' ''Sui rallies'' ''general'' 2000,
                       exampleNews ''news_sui_0_1'' ''SUI Rallies '' ''sui'' 1000]\<rparr>
   \<and> normalizedTitle (exampleNews ''cp_1'' ''Sui rallies'' ''general'' 2000)
     = normalizedTitle (exampleNews ''news_sui_0_1'' ''SUI Rallies '' ''sui'' 1000)"
  by code_simp

text \<open>
  Claim C7, as the code has it: \<^verbatim>\<open>getSuiNews\<close> consults both sources and always
  answers with success and no error; its data are the items of the sources that succeeded,
  deduplicated by normalized title (every title of a successful source is kept once, and
  nothing else is returned); a source that is rejected or answers with failure contributes
  nothing, and a successful one contributes its items.
\<close>

theorem getSuiNews_partial_success:
  "success (getSuiNews newsApiResult googleRssResult)
   \<and> error (getSuiNews newsApiResult googleRssResult) = None
   \<and> (case data (getSuiNews newsApiResult googleRssResult) of
        None \<Rightarrow> False
      | Some d \<Rightarrow>
          distinct (map normalizedTitle d)
          \<and> set d \<subseteq> set (settled_items newsApiResult) \<union> set (settled_items googleRssResult)
          \<and> set (map normalizedTitle d)
              = set (map normalizedTitle (settled_items newsApiResult @ settled_items googleRssResult)))
   \<and> settled_items Rejected = []
   \<and> settled_items (Fulfilled \<lparr>success = False, data = d0, error = e0\<rparr>) = []
   \<and> settled_items (Fulfilled \<lparr>success = True, data = Some items, error = e1\<rparr>) = items"
proof -
  let ?ys = "settled_items newsApiResult @ settled_items googleRssResult"
  have sub: "set (removeDuplicates ?ys)
        \<subseteq> set (settled_items newsApiResult) \<union> set (settled_items googleRssResult)"
    using removeDuplicates_filter_sublist[of "{}" ?ys]
    by (simp add: removeDuplicates_def)
  have keys: "set (map normalizedTitle (removeDuplicates ?ys)) = set (map normalizedTitle ?ys)"
    by (rule keys_removeDuplicates)
  have dist: "distinct (map normalizedTitle (removeDuplicates ?ys))"
    by (rule distinct_removeDuplicates)
  have d: "(case data (getSuiNews newsApiResult googleRssResult) of
        None \<Rightarrow> False
      | Some d \<Rightarrow>
          distinct (map normalizedTitle d)
          \<and> set d \<subseteq> set (settled_items newsApiResult) \<union> set (settled_items googleRssResult)
          \<and> set (map normalizedTitle d) = set (map normalizedTitle ?ys))"
    unfolding data_getSuiNews option.case using dist sub keys by blast
  have e: "error (getSuiNews newsApiResult googleRssResult) = None"
    by (simp add: getSuiNews_def Let_def)
  have s1: "settled_items Rejected = []"
    by (simp add: settled_items_def)
  have s2: "settled_items (Fulfilled \<lparr>success = False, data = d0, error = e0\<rparr>) = []"
    by (simp add: settled_items_def)
  have s3: "settled_items (Fulfilled \<lparr>success = True, data = Some items, error = e1\<rparr>) = items"
    by (simp add: settled_items_def data_or_empty_def)
  from d e s1 s2 s3 show ?thesis
    by (simp only: success_getSuiNews simp_thms)
qed

text \<open>
  When both sources fail the answer is still a success, with an empty list: the path has no
  total failure.
\<close>

theorem getSuiNews_all_failed_counterexample:
  "getSuiNews
     (Fulfilled \<lparr>success = False, data = None, error = Some ''NewsAPI error''\<rparr>)
     (Fulfilled \<lparr>success = False, data = None, error = Some ''Google RSS error''\<rparr>)
   = \<lparr>success = True, data = Some [], error = None\<rparr>"
  by code_simp

section \<open>Parsing Move-chain events\<close>

lemmas match_defs =
  match_token_pair_def match_coin_type_pair_def match_coin_type_def match_pool_id_def
  synthetic_fallback_def default_address_def decode_in_priority_order_def

lemma parseSuiEvent_fields_priority: "parseSuiEvent_fields ev = decode_in_priority_order ev"
proof (cases "fld pj_token_x (ev_parsedJson ev)")
  case None
  then show ?thesis
    by (simp add: parseSuiEvent_fields_def match_defs Let_def split: attempt.splits option.splits)
next
  case x: (Some token_x)
  show ?thesis
  proof (cases "fld pj_token_y (ev_parsedJson ev)")
    case None
    with x show ?thesis
      by (simp add: parseSuiEvent_fields_def match_defs Let_def split: attempt.splits option.splits)
  next
    case (Some token_y)
    with x show ?thesis
      by (simp add: parseSuiEvent_fields_def match_defs Let_def split: attempt.splits)
  qed
qed

lemma truthy_str_of: "truthy a \<Longrightarrow> a = Some (str_of a) \<and> str_of a \<noteq> []"
  by (cases a) (simp_all add: truthy_def str_of_def)

lemma parseSuiEvent_Threw: "parseSuiEvent_fields ev = Threw \<Longrightarrow> parseSuiEvent dateParse t0 t1 ev = None"
  by (simp add: parseSuiEvent_def)

lemma parseSuiEvent_no_address:
  "parseSuiEvent_fields ev = Returned (s, n, a) \<Longrightarrow> \<not> truthy a \<Longrightarrow> parseSuiEvent dateParse t0 t1 ev = None"
  by (simp add: parseSuiEvent_def)

lemma parseSuiEvent_Some:
  assumes "parseSuiEvent_fields ev = Returned (s, n, a)" and "truthy a"
  shows "\<exists>r. parseSuiEvent dateParse t0 t1 ev = Some r \<and> cd_symbol r = s \<and> cd_name r = n
             \<and> cd_contractAddress r = str_of a"
  using assms by (simp add: parseSuiEvent_def)

text \<open>
  Claim C10: for every raw Move-chain event, \<^verbatim>\<open>parseSuiEvent\<close> either returns a record
  whose contract/pool address is a non-empty string or returns nothing. The fields it
  computes are those of the decoder that tries the four payload shapes (typed token pair,
  coin-type-string pair, single coin-type string, bare pool identifier) in this order and
  falls back to a synthetic symbol built from the event type path and the transaction
  digest; the record carries the symbol, name and address so decoded, and the event is
  discarded exactly when decoding threw or resolved no address.
\<close>

theorem parseSuiEvent_address_or_nothing:
  "parseSuiEvent_fields ev = decode_in_priority_order ev
   \<and> (case parseSuiEvent dateParse t0 t1 ev of
        None \<Rightarrow>
          (case decode_in_priority_order ev of
             Threw \<Rightarrow> True
           | Returned (symbol, name, address) \<Rightarrow> \<not> truthy address)
      | Some r \<Rightarrow>
          cd_contractAddress r \<noteq> []
          \<and> decode_in_priority_order ev
              = Returned (cd_symbol r, cd_name r, Some (cd_contractAddress r)))"
proof (cases "parseSuiEvent_fields ev")
  case Threw
  then show ?thesis
    using parseSuiEvent_Threw[OF Threw, of dateParse t0 t1] parseSuiEvent_fields_priority[of ev] by simp
next
  case (Returned p)
  obtain s n a where p: "p = (s, n, a)" by (cases p)
  show ?thesis
  proof (cases "truthy a")
    case True
    from parseSuiEvent_Some[OF Returned[unfolded p] True, of dateParse t0 t1]
    obtain r where r: "parseSuiEvent dateParse t0 t1 ev = Some r" "cd_symbol r = s" "cd_name r = n"
      "cd_contractAddress r = str_of a" by blast
    with truthy_str_of[OF True] Returned p parseSuiEvent_fields_priority[of ev]
    show ?thesis by simp
  next
    case False
    with parseSuiEvent_no_address[OF Returned[unfolded p] False, of dateParse t0 t1]
      Returned p parseSuiEvent_fields_priority[of ev]
    show ?thesis by simp
  qed
qed

text \<open>
  Two runs: a payload matching two shapes takes the earlier one (its launch time is built
  from the timestamp string, here on an engine that reads no date from it); an event with
  nothing to resolve an address from is discarded.
\<close>

lemma parseSuiEvent_pool_example:
  "parseSuiEvent noDateInDigits 5 6 (exampleEvent (emptyPayload\<lparr>pj_pool_id := Some ''0xabcdef0123456789'', pj_coin_type := Some ''0x2::sui::SUI''\<rparr>))
   = Some ((exampleCoin ''0x2::sui::SUI'' 1700000000000)
        \<lparr>cd_id := ''0x2::sui::SUI-0'', cd_symbol := ''SUI'', cd_name := ''SUI'', cd_network := Sui,
         cd_launchTime := InvalidDate,
         cd_dextoolsUrl := Some ''https://www.dextools.io/app/en/sui/pair-explorer/0x2::sui::SUI'',
         cd_dexscreenerUrl := Some ''https://dexscreener.com/sui/0x2::sui::SUI''\<rparr>)"
  by code_simp

lemma parseSuiEvent_discards_example:
  "parseSuiEvent noDateInDigits 5 6 ((exampleEvent emptyPayload)\<lparr>ev_id := None, ev_type := None\<rparr>) = None"
  by code_simp

section \<open>The block cache\<close>

lemma length_cache_set: "length (cache_set k v m) \<le> Suc (length m)"
  by (induction m) auto

lemma keys_cache_set: "set (map fst (cache_set k v m)) = insert k (set (map fst m))"
  by (induction m) auto

lemma distinct_cache_set: "distinct (map fst m) \<Longrightarrow> distinct (map fst (cache_set k v m))"
  by (induction m) (auto simp: keys_cache_set[simplified])

lemma cache_delete_first:
  "distinct (map fst (e # m)) \<Longrightarrow> cache_delete (fst e) (e # m) = m"
proof -
  assume "distinct (map fst (e # m))"
  then have "\<forall>x\<in>set m. fst x \<noteq> fst e" by (auto simp: image_iff)
  then show ?thesis by (simp add: cache_delete_def)
qed

lemma cache_block_evicts:
  assumes "distinct (map fst cache)"
  shows "cache_block k b cache = cache_set k b (if length cache > 100 then tl cache else cache)"
proof (cases cache)
  case Nil
  then show ?thesis by (simp add: cache_block_def)
next
  case (Cons e m)
  with assms cache_delete_first[of e m] show ?thesis
    by (simp add: cache_block_def cache_first_key_def)
qed

lemma cache_ok_cache_block: "cache_ok cache \<Longrightarrow> cache_ok (cache_block k b cache)"
proof -
  assume ok: "cache_ok cache"
  then have d: "distinct (map fst cache)" by (simp add: cache_ok_def)
  let ?c = "if length cache > 100 then tl cache else cache"
  from ok have "length ?c \<le> 100" by (auto simp: cache_ok_def)
  with length_cache_set[of k b ?c] have "length (cache_set k b ?c) \<le> 101" by linarith
  moreover from d have "distinct (map fst ?c)" by (cases cache) auto
  then have "distinct (map fst (cache_set k b ?c))" by (rule distinct_cache_set)
  ultimately show ?thesis by (simp add: cache_block_evicts[OF d] cache_ok_def)
qed

lemma cache_ok_fetch:
  "cache_ok cache \<Longrightarrow> fetch_with_retry n retries answers cache = Some (r, cache') \<Longrightarrow> cache_ok cache'"
  by (induction answers arbitrary: retries)
     (auto simp: cache_ok_cache_block split: if_splits rpc_answer.splits)

lemma cache_ok_getBlockWithCache:
  "cache_ok cache \<Longrightarrow> getBlockWithCache now n answers cache = Some (b, cache') \<Longrightarrow> cache_ok cache'"
  by (auto simp: getBlockWithCache_def split: if_splits option.splits attempt.splits prod.splits
      dest: cache_ok_fetch)

lemma cache_ok_lookups:
  "cache_ok cache \<Longrightarrow> lookups calls cache = Some cache' \<Longrightarrow> cache_ok cache'"
proof (induction calls arbitrary: cache)
  case Nil
  then show ?case by simp
next
  case (Cons call calls)
  obtain now n answers where c: "call = (now, n, answers)" by (cases call)
  from Cons.prems(2) c obtain b c1 where
    g: "getBlockWithCache now n answers cache = Some (b, c1)" and l: "lookups calls c1 = Some cache'"
    by (auto split: option.splits)
  from cache_ok_getBlockWithCache[OF Cons.prems(1) g] have "cache_ok c1" .
  from Cons.IH[OF this l] show ?case .
qed

text \<open>
  Claim C8: after every sequence of block lookups, started on the empty cache, the cache holds
  at most 101 entries (the size test of the caching step is \<^verbatim>\<open>size > 100\<close>, so the
  capacity is 101), and the caching step on such a cache first drops the oldest entry, the
  head of the insertion order, whenever the cache holds more than 100 entries, and then sets
  the new block.
\<close>

theorem blockCache_bounded:
  "lookups calls [] = Some cache \<Longrightarrow>
     length cache \<le> 101
     \<and> cache_block blockNumber block cache
         = cache_set blockNumber block (if length cache > 100 then tl cache else cache)"
proof -
  assume "lookups calls [] = Some cache"
  with cache_ok_lookups[of "[]" calls cache] have ok: "cache_ok cache"
    by (simp add: cache_ok_def)
  then show ?thesis
    using cache_block_evicts[of cache blockNumber block] by (simp add: cache_ok_def)
qed

text \<open>
  The retry loop ends when the provider never answers \<^verbatim>\<open>null\<close>; against a provider that
  keeps answering \<^verbatim>\<open>null\<close> it keeps running.
\<close>

lemma fetch_with_retry_returns:
  "GotNull \<notin> set answers \<Longrightarrow> retries \<le> length answers \<Longrightarrow> fetch_with_retry n retries answers cache \<noteq> None"
  by (induction answers arbitrary: retries) (auto split: rpc_answer.splits)

lemma fetch_with_retry_null: "retries > 0 \<Longrightarrow> fetch_with_retry n retries (replicate k GotNull) cache = None"
  by (induction k) auto

text \<open>One hundred and one lookups of distinct blocks fill the cache to 101 entries.\<close>

lemma cache_set_new: "k \<notin> fst ` set m \<Longrightarrow> cache_set k v m = m @ [(k, v)]"
  by (induction m) auto

lemma lookups_append:
  "lookups (xs @ ys) cache = (case lookups xs cache of None \<Rightarrow> None | Some c \<Rightarrow> lookups ys c)"
  by (induction xs arbitrary: cache) (auto split: option.splits)

lemma map_of_upt_None: "map_of (map (\<lambda>i. (i, f i)) [0..<n]) n = None"
  by (simp add: map_of_eq_None_iff image_image)

lemma exampleLookups_fill:
  "n \<le> 101 \<Longrightarrow> lookups (exampleLookups n) [] = Some (map (\<lambda>i. (i, exampleBlock i)) [0..<n])"
proof (induction n)
  case 0
  then show ?case by (simp add: exampleLookups_def)
next
  case (Suc n)
  let ?c = "map (\<lambda>i. (i, exampleBlock i)) [0..<n]"
  from Suc have ih: "lookups (exampleLookups n) [] = Some ?c" by simp
  have new: "n \<notin> fst ` set ?c" by (simp add: image_image)
  from Suc.prems have "\<not> length ?c > 100" by simp
  then have "cache_block n (exampleBlock n) ?c = ?c @ [(n, exampleBlock n)]"
    using cache_set_new[OF new] by (simp add: cache_block_def)
  then have "getBlockWithCache 1700000000000 n [RateLimited, Got (exampleBlock n)] ?c
             = Some (Some (exampleBlock n), ?c @ [(n, exampleBlock n)])"
    by (simp add: getBlockWithCache_def cache_has_def map_of_upt_None)
  then show ?case
    by (simp add: exampleLookups_def lookups_append ih[unfolded exampleLookups_def])
qed

theorem blockCache_bounded_witness:
  "lookups (exampleLookups 101) [] = Some (map (\<lambda>i. (i, exampleBlock i)) [0..<101])
   \<and> length (map (\<lambda>i. (i, exampleBlock i)) [0..<101]) = 101
   \<and> cache_block 101 (exampleBlock 101) (map (\<lambda>i. (i, exampleBlock i)) [0..<101])
       = cache_set 101 (exampleBlock 101) (tl (map (\<lambda>i. (i, exampleBlock i)) [0..<101]))"
proof -
  have r: "lookups (exampleLookups 101) [] = Some (map (\<lambda>i. (i, exampleBlock i)) [0..<101])"
    by (rule exampleLookups_fill) simp
  from blockCache_bounded[OF r, of 101 "exampleBlock 101"] r show ?thesis by simp
qed

section \<open>The list returned by one call of the chain-log scanner\<close>















section \<open>Uniqueness in the persisted collections\<close>

lemma coinSave_keeps: "coinSave doc store = Inr store' \<Longrightarrow> store' = store @ [doc] \<and> c_id doc \<notin> set (map c_id store)"
  by (auto simp: coinSave_def split: if_splits)

lemma saveNewCoins_loop_keys:
  "distinct (map coinKey store) \<Longrightarrow> distinct (map c_id store) \<Longrightarrow>
   distinct (map coinKey (snd (saveNewCoins_loop k coins store)))
   \<and> distinct (map c_id (snd (saveNewCoins_loop k coins store)))"
proof (induction coins arbitrary: k store)
  case Nil
  then show ?case by simp
next
  case (Cons coinData coins)
  let ?q = "\<lambda>c. c_contractAddress c = cd_contractAddress coinData \<and> c_network c = cd_network coinData"
  show ?case
  proof (cases "find ?q store")
    case (Some existing)
    with Cons show ?thesis by simp
  next
    case None
    show ?thesis
    proof (cases "coinSave (newCoin coinData) store")
      case (Inl err)
      with None Cons show ?thesis by simp
    next
      case (Inr store')
      from coinSave_keeps[OF Inr] have s: "store' = store @ [newCoin coinData]"
        and fresh: "c_id (newCoin coinData) \<notin> set (map c_id store)" by auto
      from None have "\<forall>c\<in>set store. \<not> ?q c" by (simp add: find_None_iff)
      then have "coinKey (newCoin coinData) \<notin> set (map coinKey store)"
        by (auto simp: coinKey_def newCoin_def)
      with Cons.prems s fresh have "distinct (map coinKey store')" "distinct (map c_id store')"
        by auto
      from Cons.IH[OF this] None Inr show ?thesis by simp
    qed
  qed
qed

lemma coin_runs_keys:
  "distinct (map coinKey store) \<Longrightarrow> distinct (map c_id store) \<Longrightarrow>
   distinct (map coinKey (coin_runs batches store)) \<and> distinct (map c_id (coin_runs batches store))"
proof (induction batches arbitrary: store)
  case Nil
  then show ?case by (simp add: coin_runs_def)
next
  case (Cons b bs)
  from saveNewCoins_loop_keys[OF Cons.prems, of 0 b]
  have "distinct (map coinKey (snd (saveNewCoins b store)))" "distinct (map c_id (snd (saveNewCoins b store)))"
    by (simp_all add: saveNewCoins_def)
  from Cons.IH[OF this] show ?case by (simp add: coin_runs_def)
qed

text \<open>
  Claim C3, as the code has it: in every state of the coin collection reached from the empty
  collection by monitoring runs, no two stored asset records share the pair of contract/pool
  address and chain tag, and no two share an identifier. The first rests on the lookup that
  \<^verbatim>\<open>saveNewCoins\<close> makes before it saves; the store's own unique index is the one on the
  identifier.
\<close>

theorem saveNewCoins_unique_keys:
  "distinct (map coinKey (coin_runs batches [])) \<and> distinct (map c_id (coin_runs batches []))"
  using coin_runs_keys[of "[]" batches] by simp

text \<open>
  The store itself accepts a second record with the address and chain tag of a stored one,
  as long as the identifier is new: no constraint of the schema is on that pair.
\<close>

theorem coinSave_duplicate_key_counterexample:
  "coinSave (newCoin ((exampleCoin ''0xab'' 1000)\<lparr>cd_id := ''0xab-second''\<rparr>)) [newCoin (exampleCoin ''0xab'' 1000)]
     = Inr [newCoin (exampleCoin ''0xab'' 1000), newCoin ((exampleCoin ''0xab'' 1000)\<lparr>cd_id := ''0xab-second''\<rparr>)]
   \<and> coinKey (newCoin ((exampleCoin ''0xab'' 1000)\<lparr>cd_id := ''0xab-second''\<rparr>))
       = coinKey (newCoin (exampleCoin ''0xab'' 1000))"
  by code_simp

lemma saveNewCoins_example:
  "saveNewCoins [exampleCoin ''0xab'' 1000, exampleCoin ''0xcd'' 2000, (exampleCoin ''0xab'' 1000)\<lparr>cd_id := ''0xab-second''\<rparr>] []
   = (2, [newCoin (exampleCoin ''0xab'' 1000), newCoin (exampleCoin ''0xcd'' 2000)])"
  by code_simp

text \<open>
  A record whose launch date is invalid is not stored: the cast of the date fails and the
  save is rejected.
\<close>

lemma saveNewCoins_invalid_date_example:
  "saveNewCoins [(exampleCoin ''0x2::sui::SUI'' 0)\<lparr>cd_network := Sui, cd_launchTime := InvalidDate\<rparr>] []
   = (0, [])"
  by code_simp

lemma newsSave_keeps: "newsSave doc store = Inr store' \<Longrightarrow> store' = store @ [doc] \<and> n_id doc \<notin> set (map n_id store)"
  by (auto simp: newsSave_def split: if_splits)

lemma saveNews_fresh:
  "titles_fresh store \<Longrightarrow> titles_fresh (saveNews newsItems store)"
proof (induction newsItems arbitrary: store)
  case Nil
  then show ?case by simp
next
  case (Cons newsItem newsItems)
  show ?case
  proof (cases "find (\<lambda>n. n_title n = trim (ni_title newsItem)) store")
    case (Some existing)
    with Cons show ?thesis by simp
  next
    case None
    show ?thesis
    proof (cases "newsSave (newNews newsItem) store")
      case (Inl err)
      with None Cons show ?thesis by simp
    next
      case (Inr store')
      from newsSave_keeps[OF Inr] have s: "store' = store @ [newNews newsItem]" by simp
      from None have "\<forall>n\<in>set store. n_title n \<noteq> trim (ni_title newsItem)"
        by (simp add: find_None_iff)
      with Cons.prems s have "titles_fresh store'"
        by (simp add: titles_fresh_def sorted_wrt_append newNews_def)
      from Cons.IH[OF this] None Inr show ?thesis by simp
    qed
  qed
qed

lemma news_runs_fresh: "titles_fresh store \<Longrightarrow> titles_fresh (news_runs batches store)"
  by (induction batches arbitrary: store) (simp_all add: news_runs_def saveNews_fresh)

lemma titles_fresh_distinct:
  "titles_fresh store \<Longrightarrow> distinct (map n_title (filter has_trimmed_title store))"
proof (induction store)
  case Nil
  then show ?case by simp
next
  case (Cons n store)
  then have ih: "distinct (map n_title (filter has_trimmed_title store))"
    and fresh: "\<forall>m\<in>set store. n_title n \<noteq> trim (n_title m)"
    by (simp_all add: titles_fresh_def)
  from fresh have "n_title n \<notin> n_title ` set (filter has_trimmed_title store)"
    by (auto simp: has_trimmed_title_def)
  with ih show ?case by simp
qed

text \<open>
  Claim C4, as the code has it: in every state of the news collection reached from the empty
  collection by news-save operations, the stored records whose titles carry no leading or
  trailing white space have pairwise different titles, compared as exact strings.
\<close>

theorem saveNews_unique_trimmed_titles:
  "distinct (map n_title (filter has_trimmed_title (news_runs batches [])))"
proof -
  have "titles_fresh []" by (simp add: titles_fresh_def)
  then have "titles_fresh (news_runs batches [])" by (rule news_runs_fresh)
  then show ?thesis by (rule titles_fresh_distinct)
qed

text \<open>
  Two titles that differ only in case are both stored, although they are equal after
  lower-casing and trimming.
\<close>

theorem saveNews_case_counterexample:
  "news_runs [[exampleNews ''news_sui_0_1'' ''Sui Rallies'' ''sui'' 1000],
              [exampleNews ''google_sui_0_2'' ''sui rallies'' ''sui'' 2000]] []
     = [newNews (exampleNews ''news_sui_0_1'' ''Sui Rallies'' ''sui'' 1000),
        newNews (exampleNews ''google_sui_0_2'' ''sui rallies'' ''sui'' 2000)]
   \<and> trim (toLowerCase ''Sui Rallies'') = trim (toLowerCase ''sui rallies'')"
  by code_simp

text \<open>
  The lookup trims the title of the candidate and not the stored one: a title with
  surrounding white space is stored again, while a trimmed one is skipped the second time.
\<close>

lemma saveNews_untrimmed_example:
  "saveNews [exampleNews ''news_sui_0_1'' '' Sui rallies'' ''sui'' 1000,
             exampleNews ''news_sui_0_2'' '' Sui rallies'' ''sui'' 1000] []
     = [newNews (exampleNews ''news_sui_0_1'' '' Sui rallies'' ''sui'' 1000),
        newNews (exampleNews ''news_sui_0_2'' '' Sui rallies'' ''sui'' 1000)]"
  by code_simp

lemma saveNews_stores_example:
  "saveNews [exampleNews ''news_sui_0_1'' ''Sui rallies'' ''sui'' 1000,
             exampleNews ''news_sui_0_2'' ''Sui rallies'' ''sui'' 1000] []
     = [newNews (exampleNews ''news_sui_0_1'' ''Sui rallies'' ''sui'' 1000)]"
  by code_simp

text \<open>
  Claim C9 fails on the code: a news item of the general path carries the chain tag
  \<^verbatim>\<open>"general"\<close>, which the \<^verbatim>\<open>enum\<close> validator of the schema rejects; the error is caught
  in the loop of \<^verbatim>\<open>saveNews\<close> and the item is not stored, although no title is stored yet.
\<close>

theorem saveNews_rejects_general:
  "saveNews [exampleNews ''cp_1'' ''Bitcoin rallies'' ''general'' 1000] [] = []
   \<and> newsSave (newNews (exampleNews ''cp_1'' ''Bitcoin rallies'' ''general'' 1000)) [] = Inl ValidationError"
  by code_simp

lemma saveNews_general_never_stored:
  "ni_network newsItem = ''general'' \<Longrightarrow> saveNews [newsItem] store = store"
  by (simp add: newsSave_def newsValid_def newNews_def split: option.splits)

lemma monitorNews_drops_general:
  "monitorNews
     \<lparr>success = True, data = Some [exampleNews ''cp_1'' ''Bitcoin rallies'' ''general'' 1000],
      error = None\<rparr>
     \<lparr>success = False, data = None, error = Some ''CoinTelegraph RSS error''\<rparr>
     Rejected Rejected [] = []"
  by code_simp

section \<open>Publication state\<close>

lemma distinct_map_filter_count:
  "distinct (List.map_filter f xs) \<Longrightarrow> length (filter (\<lambda>a. f a = Some y) xs) \<le> 1"
proof (induction xs)
  case Nil
  then show ?case by simp
next
  case (Cons a xs)
  show ?case
  proof (cases "f a")
    case None
    with Cons show ?thesis by (simp add: List.map_filter_simps)
  next
    case (Some z)
    with Cons.prems have d: "distinct (List.map_filter f xs)" and z: "z \<notin> set (List.map_filter f xs)"
      by (simp_all add: List.map_filter_simps)
    show ?thesis
    proof (cases "z = y")
      case True
      with z have "\<forall>b\<in>set xs. f b \<noteq> Some y" by (auto simp: set_map_filter)
      then have "filter (\<lambda>a. f a = Some y) xs = []" by (simp add: filter_empty_conv)
      with Some True show ?thesis by simp
    next
      case False
      with Some Cons.IH[OF d] show ?thesis by simp
    qed
  qed
qed

subsection \<open>The shared loop\<close>

lemma map_update_same:
  assumes "\<And>d. g (h d) = g d"
  shows "map g (docs[i := h (docs ! i)]) = map g docs"
proof (cases "i < length docs")
  case True
  then show ?thesis by (simp add: map_update assms list_update_same_conv)
next
  case False
  then show ?thesis by (simp add: list_update_beyond not_less)
qed

lemma pair_map_zip: "map (\<lambda>d. (f d, g d)) xs = zip (map f xs) (map g xs)"
  by (induction xs) auto

lemma post_each_length:
  "length (fst (post_each send saved mark todo (docs, facts))) = length docs"
  by (induction todo arbitrary: docs facts) (auto split: option.splits saves.splits)

lemma post_each_erase:
  assumes "\<And>d. erase (mark d) = erase d"
  shows "map erase (fst (post_each send saved mark todo (docs, facts))) = map erase docs"
proof (induction todo arbitrary: docs facts)
  case Nil
  then show ?case by simp
next
  case (Cons e todo)
  obtain i d where e: "e = (i, d)" by (cases e)
  have "map erase (docs[i := mark (docs ! i)]) = map erase docs"
    by (rule map_update_same) (rule assms)
  with Cons[of "docs[i := mark (docs ! i)]"] Cons[of docs] e show ?case
    by (simp split: option.splits saves.splits)
qed

text \<open>One step of the loop: the three ways in which it leaves the collections.\<close>

lemma post_each_step:
  "post_each send saved mark ((i, d) # todo) (docs, facts) = post_each send saved mark todo (docs, facts)
   \<or> (\<exists>f. send i d = Some f \<and> saved i = FlagSaveRejected
        \<and> post_each send saved mark ((i, d) # todo) (docs, facts)
            = post_each send saved mark todo (docs, facts @ [f]))
   \<or> (\<exists>f. send i d = Some f \<and> saved i = BothSaved
        \<and> post_each send saved mark ((i, d) # todo) (docs, facts)
            = post_each send saved mark todo (docs[i := mark (docs ! i)], facts @ [f]))"
  by (cases "send i d"; cases "saved i") simp_all

lemma post_each_facts:
  "\<exists>added. snd (post_each send saved mark todo (docs, facts)) = facts @ added
     \<and> (\<forall>f\<in>set added. \<exists>i d. (i, d) \<in> set todo \<and> send i d = Some f)"
proof (induction todo arbitrary: docs facts)
  case Nil
  then show ?case by simp
next
  case (Cons e todo)
  obtain i d where e: "e = (i, d)" by (cases e)
  from post_each_step[of send saved mark i d todo docs facts]
  consider
      "post_each send saved mark (e # todo) (docs, facts) = post_each send saved mark todo (docs, facts)"
    | f docs' where "send i d = Some f"
        "post_each send saved mark (e # todo) (docs, facts)
           = post_each send saved mark todo (docs', facts @ [f])"
    unfolding e by blast
  then show ?case
  proof cases
    case 1
    from Cons[of docs facts] obtain added where
      "snd (post_each send saved mark todo (docs, facts)) = facts @ added"
      "\<forall>f\<in>set added. \<exists>i d. (i, d) \<in> set todo \<and> send i d = Some f" by blast
    then have "snd (post_each send saved mark (e # todo) (docs, facts)) = facts @ added"
      "\<forall>f\<in>set added. \<exists>i d. (i, d) \<in> set (e # todo) \<and> send i d = Some f"
      using 1 by (simp, fastforce)
    then show ?thesis by blast
  next
    case 2
    from Cons[of docs' "facts @ [f]"] obtain added where
      a: "snd (post_each send saved mark todo (docs', facts @ [f])) = (facts @ [f]) @ added"
      "\<forall>f\<in>set added. \<exists>i d. (i, d) \<in> set todo \<and> send i d = Some f" by blast
    have "snd (post_each send saved mark (e # todo) (docs, facts)) = facts @ (f # added)"
      using a(1) 2(2) by simp
    moreover have "\<forall>g\<in>set (f # added). \<exists>i d. (i, d) \<in> set (e # todo) \<and> send i d = Some g"
    proof
      fix g assume "g \<in> set (f # added)"
      then consider "g = f" | "g \<in> set added" by auto
      then show "\<exists>i d. (i, d) \<in> set (e # todo) \<and> send i d = Some g"
      proof cases
        case 1
        with 2(1) e have "(i, d) \<in> set (e # todo) \<and> send i d = Some g" by simp
        then show ?thesis by blast
      next
        case 2
        with a(2) obtain i' d' where "(i', d') \<in> set todo" "send i' d' = Some g" by blast
        then have "(i', d') \<in> set (e # todo) \<and> send i' d' = Some g" by simp
        then show ?thesis by blast
      qed
    qed
    ultimately show ?thesis by blast
  qed
qed

lemma posted_once_step:
  assumes J: "posted_once key flag fkey tag owner docs facts"
    and mark_key: "\<And>d. key (mark d) = key d"
    and mark_flag: "\<And>d. flag (mark d)"
    and own: "\<And>k. owner (tag k) = k"
    and f: "fkey f = Some (tag (key (docs ! i)))"
    and i: "i < length docs"
    and unflagged: "\<not> flag (docs ! i)"
  shows "posted_once key flag fkey tag owner (docs[i := mark (docs ! i)]) (facts @ [f])"
proof -
  let ?docs = "docs[i := mark (docs ! i)]"
  let ?k = "key (docs ! i)"
  from J have dk: "distinct (map key docs)" and df: "distinct (List.map_filter fkey facts)"
    and fl: "\<forall>d\<in>set docs. tag (key d) \<in> set (List.map_filter fkey facts) \<longrightarrow> flag d"
    and ow: "\<forall>x\<in>set (List.map_filter fkey facts). owner x \<in> key ` set docs"
    by (simp_all add: posted_once_def)
  have keys: "map key ?docs = map key docs"
    by (rule map_update_same) (rule mark_key)
  then have kset: "key ` set ?docs = key ` set docs"
    by (metis list.set_map)
  from i have "docs ! i \<in> set docs" by simp
  with fl unflagged have new: "tag ?k \<notin> set (List.map_filter fkey facts)" by blast
  have mf: "List.map_filter fkey (facts @ [f]) = List.map_filter fkey facts @ [tag ?k]"
    by (simp add: map_filter_append List.map_filter_simps f)
  have c1: "distinct (map key ?docs)" using keys dk by simp
  have c2: "distinct (List.map_filter fkey (facts @ [f]))" using mf df new by simp
  have c3: "\<forall>d\<in>set ?docs. tag (key d) \<in> set (List.map_filter fkey (facts @ [f])) \<longrightarrow> flag d"
  proof (intro ballI impI)
    fix d assume d: "d \<in> set ?docs" and t: "tag (key d) \<in> set (List.map_filter fkey (facts @ [f]))"
    show "flag d"
    proof (cases "key d = ?k")
      case True
      from i have ii: "?docs ! i = mark (docs ! i)" "i < length ?docs" by simp_all
      from d obtain j where j: "j < length ?docs" "?docs ! j = d" by (auto simp: in_set_conv_nth)
      from j ii True have eq: "map key ?docs ! j = map key ?docs ! i"
        by (simp add: mark_key)
      from j ii have lj: "j < length (map key ?docs)" "i < length (map key ?docs)" by simp_all
      from nth_eq_iff_index_eq[OF c1 lj] eq have "j = i" by blast
      with j ii have "d = mark (docs ! i)" by simp
      then show ?thesis by (simp add: mark_flag)
    next
      case False
      then have "tag (key d) \<noteq> tag ?k" by (metis own)
      with t mf have t': "tag (key d) \<in> set (List.map_filter fkey facts)" by simp
      from d have "d = mark (docs ! i) \<or> d \<in> set docs"
        by (meson insertE set_update_subset_insert subsetD)
      with False mark_key have "d \<in> set docs" by metis
      with fl t' show ?thesis by blast
    qed
  qed
  have c4: "\<forall>x\<in>set (List.map_filter fkey (facts @ [f])). owner x \<in> key ` set ?docs"
    using ow mf own kset \<open>docs ! i \<in> set docs\<close> by auto
  from c1 c2 c3 c4 show ?thesis by (simp add: posted_once_def)
qed

lemma post_each_posted_once:
  assumes mark_key: "\<And>d. key (mark d) = key d"
    and mark_flag: "\<And>d. flag (mark d)"
    and own: "\<And>k. owner (tag k) = k"
    and send: "\<And>i d f. send i d = Some f \<Longrightarrow> fkey f = Some (tag (key d))"
    and saved: "\<And>i. saved i \<noteq> FlagSaveRejected"
  shows "posted_once key flag fkey tag owner docs facts \<Longrightarrow>
         \<forall>(i, d)\<in>set todo. i < length docs \<and> key (docs ! i) = key d \<and> \<not> flag (docs ! i) \<Longrightarrow>
         distinct (map fst todo) \<Longrightarrow>
         posted_once key flag fkey tag owner
           (fst (post_each send saved mark todo (docs, facts)))
           (snd (post_each send saved mark todo (docs, facts)))"
proof (induction todo arbitrary: docs facts)
  case Nil
  then show ?case by simp
next
  case (Cons e todo)
  obtain i d where e: "e = (i, d)" by (cases e)
  from Cons.prems(2) e have i: "i < length docs" "key (docs ! i) = key d" "\<not> flag (docs ! i)"
    by auto
  from Cons.prems(3) e have ni: "i \<notin> fst ` set todo" and dt: "distinct (map fst todo)" by auto
  from post_each_step[of send saved mark i d todo docs facts] saved[of i]
  consider
      "post_each send saved mark (e # todo) (docs, facts) = post_each send saved mark todo (docs, facts)"
    | f where "send i d = Some f"
        "post_each send saved mark (e # todo) (docs, facts)
           = post_each send saved mark todo (docs[i := mark (docs ! i)], facts @ [f])"
    unfolding e by blast
  then show ?case
  proof cases
    case 1
    from Cons.prems(2) have "\<forall>(i, d)\<in>set todo. i < length docs \<and> key (docs ! i) = key d \<and> \<not> flag (docs ! i)"
      by auto
    from Cons.IH[OF Cons.prems(1) this dt] 1 show ?thesis by simp
  next
    case 2
    let ?docs = "docs[i := mark (docs ! i)]"
    from send[OF 2(1)] i(2) have fk: "fkey f = Some (tag (key (docs ! i)))" by simp
    have J: "posted_once key flag fkey tag owner ?docs (facts @ [f])"
      by (rule posted_once_step[OF Cons.prems(1) mark_key mark_flag own fk i(1) i(3)])
    have "\<forall>(j, d)\<in>set todo. j < length ?docs \<and> key (?docs ! j) = key d \<and> \<not> flag (?docs ! j)"
    proof (clarify)
      fix j d' assume jd: "(j, d') \<in> set todo"
      with ni have "j \<noteq> i" by force
      moreover from Cons.prems(2) jd have "j < length docs \<and> key (docs ! j) = key d' \<and> \<not> flag (docs ! j)"
        by auto
      ultimately show "j < length ?docs \<and> key (?docs ! j) = key d' \<and> \<not> flag (?docs ! j)" by simp
    qed
    from Cons.IH[OF J this dt] 2(2) show ?thesis by simp
  qed
qed

lemma posted_once_cong:
  assumes "map key docs' = map key docs" and "map flag docs' = map flag docs"
    and "List.map_filter fkey facts' = List.map_filter fkey facts"
  shows "posted_once key flag fkey tag owner docs' facts' = posted_once key flag fkey tag owner docs facts"
proof -
  have z: "map (\<lambda>d. (key d, flag d)) docs' = map (\<lambda>d. (key d, flag d)) docs"
    using assms(1,2) by (simp add: pair_map_zip)
  have k: "key ` set docs' = key ` set docs" using assms(1) by (metis list.set_map)
  have "(\<forall>d\<in>set docs'. tag (key d) \<in> set (List.map_filter fkey facts) \<longrightarrow> flag d)
      = (\<forall>p\<in>set (map (\<lambda>d. (key d, flag d)) docs'). tag (fst p) \<in> set (List.map_filter fkey facts) \<longrightarrow> snd p)"
    by simp
  also have "\<dots> = (\<forall>p\<in>set (map (\<lambda>d. (key d, flag d)) docs). tag (fst p) \<in> set (List.map_filter fkey facts) \<longrightarrow> snd p)"
    by (simp only: z)
  also have "\<dots> = (\<forall>d\<in>set docs. tag (key d) \<in> set (List.map_filter fkey facts) \<longrightarrow> flag d)"
    by simp
  finally show ?thesis
    by (simp add: posted_once_def assms(1,3) k)
qed

lemma posted_once_new_docs:
  assumes J: "posted_once key flag fkey tag owner docs facts"
    and d: "distinct (map key (docs @ new))"
    and own: "\<And>k. owner (tag k) = k"
  shows "posted_once key flag fkey tag owner (docs @ new) facts"
proof -
  from J have fl: "\<forall>d\<in>set docs. tag (key d) \<in> set (List.map_filter fkey facts) \<longrightarrow> flag d"
    and ow: "\<forall>x\<in>set (List.map_filter fkey facts). owner x \<in> key ` set docs"
    and df: "distinct (List.map_filter fkey facts)"
    by (simp_all add: posted_once_def)
  have "\<forall>d\<in>set new. tag (key d) \<notin> set (List.map_filter fkey facts)"
  proof
    fix x assume x: "x \<in> set new"
    show "tag (key x) \<notin> set (List.map_filter fkey facts)"
    proof
      assume "tag (key x) \<in> set (List.map_filter fkey facts)"
      with ow have "owner (tag (key x)) \<in> key ` set docs" by blast
      then have "key x \<in> key ` set docs" by (simp add: own)
      with d x show False by auto
    qed
  qed
  with fl ow df d show ?thesis by (auto simp: posted_once_def)
qed

subsection \<open>The queries\<close>

lemma insort_key_cong:
  "\<forall>y\<in>insert x (set xs). f y = g y \<Longrightarrow> insort_key f x xs = insort_key g x xs"
  by (induction xs) auto

lemma sort_key_cong: "\<forall>y\<in>set xs. f y = g y \<Longrightarrow> sort_key f xs = sort_key g xs"
proof (induction xs)
  case Nil
  then show ?case by simp
next
  case (Cons x xs)
  then have ih: "sort_key f xs = sort_key g xs" by simp
  from Cons.prems have "\<forall>y\<in>insert x (set (sort_key g xs)). f y = g y" by simp
  then have "insort_key f x (sort_key g xs) = insort_key g x (sort_key g xs)"
    by (rule insort_key_cong)
  with ih show ?case by simp
qed

lemma map_proj:
  assumes "map e xs' = map e xs" and "\<And>x. f (e x) = f x"
  shows "map f xs' = map f xs"
proof -
  have "map f xs' = map f (map e xs')" by (simp add: assms(2))
  also have "\<dots> = map f (map e xs)" by (simp only: assms(1))
  also have "\<dots> = map f xs" by (simp add: assms(2))
  finally show ?thesis .
qed

lemma find_sorted_positions:
  "map fst (find_sorted query key limit docs)
     = take limit (sort_descending (\<lambda>i. key (docs ! i)) (filter (\<lambda>i. query (docs ! i)) [0..<length docs]))"
  by (simp add: find_sorted_def comp_def)

lemma find_sorted_member:
  assumes "(i, d) \<in> set (find_sorted query key limit docs)"
  shows "i < length docs \<and> d = docs ! i \<and> query d"
proof -
  from assms obtain j where
    j: "j \<in> set (take limit (sort_descending (\<lambda>i. key (docs ! i)) (filter (\<lambda>i. query (docs ! i)) [0..<length docs])))"
    and e: "(i, d) = (j, docs ! j)"
    by (auto simp: find_sorted_def)
  from j have "j \<in> set (filter (\<lambda>i. query (docs ! i)) [0..<length docs])"
    by (metis in_set_takeD set_sort_descending)
  with e show ?thesis by simp
qed

lemma find_sorted_distinct: "distinct (map fst (find_sorted query key limit docs))"
proof -
  have "distinct (sort_descending (\<lambda>i. key (docs ! i)) (filter (\<lambda>i. query (docs ! i)) [0..<length docs]))"
    by (simp add: distinct_sort_descending)
  then show ?thesis
    unfolding find_sorted_positions by (rule distinct_take)
qed

lemma find_sorted_cong:
  assumes q: "map query docs' = map query docs" and k: "map key docs' = map key docs"
  shows "map fst (find_sorted query key limit docs') = map fst (find_sorted query key limit docs)"
proof -
  from q have len: "length docs' = length docs" by (metis length_map)
  have qi: "\<forall>i\<in>set [0..<length docs]. query (docs' ! i) = query (docs ! i)"
  proof
    fix i assume "i \<in> set [0..<length docs]"
    then have i: "i < length docs" by simp
    with len have "map query docs' ! i = query (docs' ! i)" "map query docs ! i = query (docs ! i)"
      by simp_all
    with q show "query (docs' ! i) = query (docs ! i)" by simp
  qed
  have ki: "\<forall>i<length docs. key (docs' ! i) = key (docs ! i)"
  proof (intro allI impI)
    fix i assume i: "i < length docs"
    with len have "map key docs' ! i = key (docs' ! i)" "map key docs ! i = key (docs ! i)"
      by simp_all
    with k show "key (docs' ! i) = key (docs ! i)" by simp
  qed
  have f: "filter (\<lambda>i. query (docs' ! i)) [0..<length docs] = filter (\<lambda>i. query (docs ! i)) [0..<length docs]"
    using qi by (intro filter_cong refl) simp
  have "sort_key (\<lambda>i. key (docs' ! i)) (rev (filter (\<lambda>i. query (docs ! i)) [0..<length docs]))
      = sort_key (\<lambda>i. key (docs ! i)) (rev (filter (\<lambda>i. query (docs ! i)) [0..<length docs]))"
    by (rule sort_key_cong) (simp add: ki)
  with f len show ?thesis
    by (simp add: find_sorted_positions sort_descending_def)
qed

subsection \<open>Effects of the four flag-driven loops\<close>

lemma post_each_flag_kept:
  assumes "\<And>d. flag d \<Longrightarrow> flag (mark d)"
  shows "j < length docs \<Longrightarrow> flag (docs ! j)
         \<Longrightarrow> flag (fst (post_each send saved mark todo (docs, facts)) ! j)"
proof (induction todo arbitrary: docs facts)
  case Nil
  then show ?case by simp
next
  case (Cons e todo)
  obtain i d where e: "e = (i, d)" by (cases e)
  let ?docs = "docs[i := mark (docs ! i)]"
  from Cons.prems have "j < length ?docs" by simp
  moreover from Cons.prems have "flag (?docs ! j)"
    by (cases "i = j") (simp_all add: assms)
  ultimately have m: "flag (fst (post_each send saved mark todo (?docs, facts')) ! j)" for facts'
    by (rule Cons.IH)
  from Cons.prems have u: "flag (fst (post_each send saved mark todo (docs, facts')) ! j)" for facts'
    by (rule Cons.IH)
  from post_each_step[of send saved mark i d todo docs facts] m u e show ?case
    by auto
qed

lemma post_each_prefix:
  "take (length facts) (snd (post_each send saved mark todo (docs, facts))) = facts"
  using post_each_facts[of send saved mark todo docs facts] by auto

lemmas loop_defs =
  processNewCoinTweets_def processNewsTweets_def processNewCoinMessages_def
  processNewsMessages_def Let_def split_beta

subsection \<open>The four loops\<close>

text \<open>processNewCoinTweets\<close>

lemma coinTweets_frame:
  "db_news (processNewCoinTweets tw db) = db_news db"
  "db_telegramMessages (processNewCoinTweets tw db) = db_telegramMessages db"
  "map (\<lambda>d. d\<lparr>c_isPosted := False\<rparr>) (db_coins (processNewCoinTweets tw db))
     = map (\<lambda>d. d\<lparr>c_isPosted := False\<rparr>) (db_coins db)"
  by (simp_all add: loop_defs post_each_erase)

lemma coinTweets_added:
  "\<exists>added. db_tweets (processNewCoinTweets tw db) = db_tweets db @ added
     \<and> (\<forall>f\<in>set added. tw_newsId f = None)"
proof -
  from post_each_facts[of "coinTweet tw" "\<lambda>i. snd (tw i)" "\<lambda>d. d\<lparr>c_isPosted := True\<rparr>" "tweet_unpostedCoins db"
      "db_coins db" "db_tweets db"]
  obtain added where a: "snd (post_each (coinTweet tw) (\<lambda>i. snd (tw i)) (\<lambda>d. d\<lparr>c_isPosted := True\<rparr>)
      (tweet_unpostedCoins db) (db_coins db, db_tweets db)) = db_tweets db @ added"
    and s: "\<forall>f\<in>set added. \<exists>i d. (i, d) \<in> set (tweet_unpostedCoins db) \<and> coinTweet tw i d = Some f"
    by blast
  have "\<forall>f\<in>set added. tw_newsId f = None"
  proof
    fix f assume "f \<in> set added"
    with s obtain i d where "coinTweet tw i d = Some f" by blast
    then show "tw_newsId f = None"
      by (auto simp: coinTweet_def Let_def split: if_splits)
  qed
  with a show ?thesis by (simp add: loop_defs)
qed

lemma coinTweets_posted_once:
  assumes inv: "coinTweets_once db"
    and saved: "\<And>i. snd (tw i) \<noteq> FlagSaveRejected"
  shows "coinTweets_once (processNewCoinTweets tw db)"
proof -
  have todo: "\<forall>(i, d)\<in>set (tweet_unpostedCoins db).
      i < length (db_coins db) \<and> c_id (db_coins db ! i) = c_id d \<and> \<not> c_isPosted (db_coins db ! i)"
    using find_sorted_member[of _ _ "\<lambda>d. c_isPosted d = False" c_launchTime 2 "db_coins db"]
    by (auto simp: tweet_unpostedCoins_def)
  have dist: "distinct (map fst (tweet_unpostedCoins db))"
    by (simp add: tweet_unpostedCoins_def find_sorted_distinct)
  have "posted_once c_id c_isPosted tw_coinId (\<lambda>k. k) (\<lambda>x. x)
      (fst (post_each (coinTweet tw) (\<lambda>i. snd (tw i)) (\<lambda>d. d\<lparr>c_isPosted := True\<rparr>) (tweet_unpostedCoins db)
              (db_coins db, db_tweets db)))
      (snd (post_each (coinTweet tw) (\<lambda>i. snd (tw i)) (\<lambda>d. d\<lparr>c_isPosted := True\<rparr>) (tweet_unpostedCoins db)
              (db_coins db, db_tweets db)))"
    by (rule post_each_posted_once[OF _ _ _ _ _ inv[unfolded coinTweets_once_def] todo dist])
       (auto simp: coinTweet_def  saved Let_def split: if_splits)
  then show ?thesis by (simp add: loop_defs coinTweets_once_def)
qed

lemma coinTweets_flag_kept:
  "j < length (db_coins db) \<Longrightarrow> c_isPosted (db_coins db ! j) \<Longrightarrow> c_isPosted (db_coins (processNewCoinTweets tw db) ! j)"
  using post_each_flag_kept[of c_isPosted "\<lambda>d. d\<lparr>c_isPosted := True\<rparr>" j "db_coins db" "coinTweet tw"
      "\<lambda>i. snd (tw i)" "tweet_unpostedCoins db" "db_tweets db"]
  by (simp add: loop_defs)

lemma coinTweets_prefix:
  "take (length (db_tweets db)) (db_tweets (processNewCoinTweets tw db)) = db_tweets db"
  by (simp add: loop_defs post_each_prefix)

text \<open>processNewsTweets\<close>

lemma newsTweets_frame:
  "db_coins (processNewsTweets tw db) = db_coins db"
  "db_telegramMessages (processNewsTweets tw db) = db_telegramMessages db"
  "map (\<lambda>d. d\<lparr>n_isPosted := False\<rparr>) (db_news (processNewsTweets tw db))
     = map (\<lambda>d. d\<lparr>n_isPosted := False\<rparr>) (db_news db)"
  by (simp_all add: loop_defs post_each_erase)

lemma newsTweets_added:
  "\<exists>added. db_tweets (processNewsTweets tw db) = db_tweets db @ added
     \<and> (\<forall>f\<in>set added. tw_coinId f = None)"
proof -
  from post_each_facts[of "newsTweet tw" "\<lambda>i. snd (tw i)" "\<lambda>d. d\<lparr>n_isPosted := True\<rparr>" "tweet_unpostedNews db"
      "db_news db" "db_tweets db"]
  obtain added where a: "snd (post_each (newsTweet tw) (\<lambda>i. snd (tw i)) (\<lambda>d. d\<lparr>n_isPosted := True\<rparr>)
      (tweet_unpostedNews db) (db_news db, db_tweets db)) = db_tweets db @ added"
    and s: "\<forall>f\<in>set added. \<exists>i d. (i, d) \<in> set (tweet_unpostedNews db) \<and> newsTweet tw i d = Some f"
    by blast
  have "\<forall>f\<in>set added. tw_coinId f = None"
  proof
    fix f assume "f \<in> set added"
    with s obtain i d where "newsTweet tw i d = Some f" by blast
    then show "tw_coinId f = None"
      by (auto simp: newsTweet_def Let_def split: if_splits)
  qed
  with a show ?thesis by (simp add: loop_defs)
qed

lemma newsTweets_posted_once:
  assumes inv: "newsTweets_once db"
    and saved: "\<And>i. snd (tw i) \<noteq> FlagSaveRejected"
  shows "newsTweets_once (processNewsTweets tw db)"
proof -
  have todo: "\<forall>(i, d)\<in>set (tweet_unpostedNews db).
      i < length (db_news db) \<and> n_id (db_news db ! i) = n_id d \<and> \<not> n_isPosted (db_news db ! i)"
    using find_sorted_member[of _ _ "\<lambda>d. n_isPosted d = False" n_publishedAt 1 "db_news db"]
    by (auto simp: tweet_unpostedNews_def)
  have dist: "distinct (map fst (tweet_unpostedNews db))"
    by (simp add: tweet_unpostedNews_def find_sorted_distinct)
  have "posted_once n_id n_isPosted tw_newsId (\<lambda>k. k) (\<lambda>x. x)
      (fst (post_each (newsTweet tw) (\<lambda>i. snd (tw i)) (\<lambda>d. d\<lparr>n_isPosted := True\<rparr>) (tweet_unpostedNews db)
              (db_news db, db_tweets db)))
      (snd (post_each (newsTweet tw) (\<lambda>i. snd (tw i)) (\<lambda>d. d\<lparr>n_isPosted := True\<rparr>) (tweet_unpostedNews db)
              (db_news db, db_tweets db)))"
    by (rule post_each_posted_once[OF _ _ _ _ _ inv[unfolded newsTweets_once_def] todo dist])
       (auto simp: newsTweet_def  saved Let_def split: if_splits)
  then show ?thesis by (simp add: loop_defs newsTweets_once_def)
qed

lemma newsTweets_flag_kept:
  "j < length (db_news db) \<Longrightarrow> n_isPosted (db_news db ! j) \<Longrightarrow> n_isPosted (db_news (processNewsTweets tw db) ! j)"
  using post_each_flag_kept[of n_isPosted "\<lambda>d. d\<lparr>n_isPosted := True\<rparr>" j "db_news db" "newsTweet tw"
      "\<lambda>i. snd (tw i)" "tweet_unpostedNews db" "db_tweets db"]
  by (simp add: loop_defs)

lemma newsTweets_prefix:
  "take (length (db_tweets db)) (db_tweets (processNewsTweets tw db)) = db_tweets db"
  by (simp add: loop_defs post_each_prefix)

text \<open>processNewCoinMessages\<close>

lemma coinMessages_frame:
  "db_news (processNewCoinMessages tg send db) = db_news db"
  "db_tweets (processNewCoinMessages tg send db) = db_tweets db"
  "map (\<lambda>d. d\<lparr>c_isTelegramPosted := False\<rparr>) (db_coins (processNewCoinMessages tg send db))
     = map (\<lambda>d. d\<lparr>c_isTelegramPosted := False\<rparr>) (db_coins db)"
  by (simp_all add: loop_defs post_each_erase)

lemma coinMessages_added:
  "\<exists>added. db_telegramMessages (processNewCoinMessages tg send db) = db_telegramMessages db @ added
     \<and> (\<forall>f\<in>set added. tm_newsId f = None \<and> tm_isPosted f = True \<and> tm_chatId f = tg_channelId tg)"
proof -
  from post_each_facts[of "coinMessage tg send" "\<lambda>i. snd (send i)" "\<lambda>d. d\<lparr>c_isTelegramPosted := True\<rparr>" "telegram_unpostedCoins db"
      "db_coins db" "db_telegramMessages db"]
  obtain added where a: "snd (post_each (coinMessage tg send) (\<lambda>i. snd (send i)) (\<lambda>d. d\<lparr>c_isTelegramPosted := True\<rparr>)
      (telegram_unpostedCoins db) (db_coins db, db_telegramMessages db)) = db_telegramMessages db @ added"
    and s: "\<forall>f\<in>set added. \<exists>i d. (i, d) \<in> set (telegram_unpostedCoins db) \<and> coinMessage tg send i d = Some f"
    by blast
  have "\<forall>f\<in>set added. tm_newsId f = None \<and> tm_isPosted f = True \<and> tm_chatId f = tg_channelId tg"
  proof
    fix f assume "f \<in> set added"
    with s obtain i d where "coinMessage tg send i d = Some f" by blast
    then show "tm_newsId f = None \<and> tm_isPosted f = True \<and> tm_chatId f = tg_channelId tg"
      by (auto simp: coinMessage_def Let_def split: if_splits)
  qed
  with a show ?thesis by (simp add: loop_defs)
qed

lemma coinMessages_posted_once:
  assumes inv: "coinMessages_once tg db"
    and saved: "\<And>i. snd (send i) \<noteq> FlagSaveRejected"
  shows "coinMessages_once tg (processNewCoinMessages tg send db)"
proof -
  have todo: "\<forall>(i, d)\<in>set (telegram_unpostedCoins db).
      i < length (db_coins db) \<and> c_id (db_coins db ! i) = c_id d \<and> \<not> c_isTelegramPosted (db_coins db ! i)"
    using find_sorted_member[of _ _ "\<lambda>d. c_isTelegramPosted d = False" c_launchTime 2 "db_coins db"]
    by (auto simp: telegram_unpostedCoins_def)
  have dist: "distinct (map fst (telegram_unpostedCoins db))"
    by (simp add: telegram_unpostedCoins_def find_sorted_distinct)
  have "posted_once c_id c_isTelegramPosted coinPair (\<lambda>k. (k, tg_channelId tg)) fst
      (fst (post_each (coinMessage tg send) (\<lambda>i. snd (send i)) (\<lambda>d. d\<lparr>c_isTelegramPosted := True\<rparr>) (telegram_unpostedCoins db)
              (db_coins db, db_telegramMessages db)))
      (snd (post_each (coinMessage tg send) (\<lambda>i. snd (send i)) (\<lambda>d. d\<lparr>c_isTelegramPosted := True\<rparr>) (telegram_unpostedCoins db)
              (db_coins db, db_telegramMessages db)))"
    by (rule post_each_posted_once[OF _ _ _ _ _ inv[unfolded coinMessages_once_def] todo dist])
       (auto simp: coinMessage_def coinPair_def saved Let_def split: if_splits)
  then show ?thesis by (simp add: loop_defs coinMessages_once_def)
qed

lemma coinMessages_flag_kept:
  "j < length (db_coins db) \<Longrightarrow> c_isTelegramPosted (db_coins db ! j) \<Longrightarrow> c_isTelegramPosted (db_coins (processNewCoinMessages tg send db) ! j)"
  using post_each_flag_kept[of c_isTelegramPosted "\<lambda>d. d\<lparr>c_isTelegramPosted := True\<rparr>" j "db_coins db" "coinMessage tg send"
      "\<lambda>i. snd (send i)" "telegram_unpostedCoins db" "db_telegramMessages db"]
  by (simp add: loop_defs)

lemma coinMessages_prefix:
  "take (length (db_telegramMessages db)) (db_telegramMessages (processNewCoinMessages tg send db)) = db_telegramMessages db"
  by (simp add: loop_defs post_each_prefix)

text \<open>processNewsMessages\<close>

lemma newsMessages_frame:
  "db_coins (processNewsMessages tg send db) = db_coins db"
  "db_tweets (processNewsMessages tg send db) = db_tweets db"
  "map (\<lambda>d. d\<lparr>n_isTelegramPosted := False\<rparr>) (db_news (processNewsMessages tg send db))
     = map (\<lambda>d. d\<lparr>n_isTelegramPosted := False\<rparr>) (db_news db)"
  by (simp_all add: loop_defs post_each_erase)

lemma newsMessages_added:
  "\<exists>added. db_telegramMessages (processNewsMessages tg send db) = db_telegramMessages db @ added
     \<and> (\<forall>f\<in>set added. tm_coinId f = None \<and> tm_isPosted f = True \<and> tm_chatId f = tg_channelId tg)"
proof -
  from post_each_facts[of "newsMessage tg send" "\<lambda>i. snd (send i)" "\<lambda>d. d\<lparr>n_isTelegramPosted := True\<rparr>" "telegram_unpostedNews db"
      "db_news db" "db_telegramMessages db"]
  obtain added where a: "snd (post_each (newsMessage tg send) (\<lambda>i. snd (send i)) (\<lambda>d. d\<lparr>n_isTelegramPosted := True\<rparr>)
      (telegram_unpostedNews db) (db_news db, db_telegramMessages db)) = db_telegramMessages db @ added"
    and s: "\<forall>f\<in>set added. \<exists>i d. (i, d) \<in> set (telegram_unpostedNews db) \<and> newsMessage tg send i d = Some f"
    by blast
  have "\<forall>f\<in>set added. tm_coinId f = None \<and> tm_isPosted f = True \<and> tm_chatId f = tg_channelId tg"
  proof
    fix f assume "f \<in> set added"
    with s obtain i d where "newsMessage tg send i d = Some f" by blast
    then show "tm_coinId f = None \<and> tm_isPosted f = True \<and> tm_chatId f = tg_channelId tg"
      by (auto simp: newsMessage_def Let_def split: if_splits)
  qed
  with a show ?thesis by (simp add: loop_defs)
qed

lemma newsMessages_posted_once:
  assumes inv: "newsMessages_once tg db"
    and saved: "\<And>i. snd (send i) \<noteq> FlagSaveRejected"
  shows "newsMessages_once tg (processNewsMessages tg send db)"
proof -
  have todo: "\<forall>(i, d)\<in>set (telegram_unpostedNews db).
      i < length (db_news db) \<and> n_id (db_news db ! i) = n_id d \<and> \<not> n_isTelegramPosted (db_news db ! i)"
    using find_sorted_member[of _ _ "\<lambda>d. n_isTelegramPosted d = False" n_publishedAt 1 "db_news db"]
    by (auto simp: telegram_unpostedNews_def)
  have dist: "distinct (map fst (telegram_unpostedNews db))"
    by (simp add: telegram_unpostedNews_def find_sorted_distinct)
  have "posted_once n_id n_isTelegramPosted newsPair (\<lambda>k. (k, tg_channelId tg)) fst
      (fst (post_each (newsMessage tg send) (\<lambda>i. snd (send i)) (\<lambda>d. d\<lparr>n_isTelegramPosted := True\<rparr>) (telegram_unpostedNews db)
              (db_news db, db_telegramMessages db)))
      (snd (post_each (newsMessage tg send) (\<lambda>i. snd (send i)) (\<lambda>d. d\<lparr>n_isTelegramPosted := True\<rparr>) (telegram_unpostedNews db)
              (db_news db, db_telegramMessages db)))"
    by (rule post_each_posted_once[OF _ _ _ _ _ inv[unfolded newsMessages_once_def] todo dist])
       (auto simp: newsMessage_def newsPair_def saved Let_def split: if_splits)
  then show ?thesis by (simp add: loop_defs newsMessages_once_def)
qed

lemma newsMessages_flag_kept:
  "j < length (db_news db) \<Longrightarrow> n_isTelegramPosted (db_news db ! j) \<Longrightarrow> n_isTelegramPosted (db_news (processNewsMessages tg send db) ! j)"
  using post_each_flag_kept[of n_isTelegramPosted "\<lambda>d. d\<lparr>n_isTelegramPosted := True\<rparr>" j "db_news db" "newsMessage tg send"
      "\<lambda>i. snd (send i)" "telegram_unpostedNews db" "db_telegramMessages db"]
  by (simp add: loop_defs)

lemma newsMessages_prefix:
  "take (length (db_telegramMessages db)) (db_telegramMessages (processNewsMessages tg send db)) = db_telegramMessages db"
  by (simp add: loop_defs post_each_prefix)

subsection \<open>The invariants under the four loops\<close>

text \<open>
  Each loop keeps the invariant of the three other loops and writes its facts with
  \<^verbatim>\<open>isPosted: true\<close>, however its saves go; its own invariant it keeps when no save of a
  flag is rejected (the lemmas \<open>posted_once\<close> above).
\<close>

lemma map_filter_added_None:
  "\<forall>f\<in>set added. fkey f = None \<Longrightarrow> List.map_filter fkey (facts @ added) = List.map_filter fkey facts"
  by (simp add: map_filter_append map_filter_all_None)

lemma coinTweets_keeps_newsTweets_once:
  assumes inv: "newsTweets_once db"
  shows "newsTweets_once (processNewCoinTweets tw db)"
proof -
  let ?db = "processNewCoinTweets tw db"
  note fr = coinTweets_frame[of tw db]
  from coinTweets_added[of tw db] obtain added where
    a: "db_tweets ?db = db_tweets db @ added"
      "\<forall>f\<in>set added. tw_newsId f = None"
    by blast
  have mf: "List.map_filter tw_newsId (db_tweets ?db) = List.map_filter tw_newsId (db_tweets db)"
    using a by (simp add: map_filter_added_None )
  have "posted_once n_id n_isPosted tw_newsId (\<lambda>k. k) (\<lambda>x. x)
          (db_news db) (db_tweets ?db)
      = posted_once n_id n_isPosted tw_newsId (\<lambda>k. k) (\<lambda>x. x)
          (db_news db) (db_tweets db)"
    by (rule posted_once_cong[OF refl refl mf])
  with inv show ?thesis
    by (simp add: newsTweets_once_def fr(1))
qed

lemma coinTweets_keeps_coinMessages_once:
  assumes inv: "coinMessages_once tg db"
  shows "coinMessages_once tg (processNewCoinTweets tw db)"
proof -
  let ?db = "processNewCoinTweets tw db"
  note fr = coinTweets_frame[of tw db]
  have ids: "map c_id (db_coins ?db) = map c_id (db_coins db)"
    by (rule map_proj[OF fr(3)]) simp
  have other: "map c_isTelegramPosted (db_coins ?db) = map c_isTelegramPosted (db_coins db)"
    by (rule map_proj[OF fr(3)]) simp
  have "posted_once c_id c_isTelegramPosted coinPair (\<lambda>k. (k, tg_channelId tg)) fst
          (db_coins ?db) (db_telegramMessages ?db)
      = posted_once c_id c_isTelegramPosted coinPair (\<lambda>k. (k, tg_channelId tg)) fst
          (db_coins db) (db_telegramMessages db)"
    by (rule posted_once_cong[OF ids other]) (simp add: fr(2))
  with inv show ?thesis
    by (simp add: coinMessages_once_def)
qed

lemma coinTweets_keeps_newsMessages_once:
  assumes inv: "newsMessages_once tg db"
  shows "newsMessages_once tg (processNewCoinTweets tw db)"
  using inv by (simp add: newsMessages_once_def coinTweets_frame(1,2))

lemma coinTweets_facts_posted:
  assumes "facts_posted db"
  shows "facts_posted (processNewCoinTweets tw db)"
  using assms by (simp add: facts_posted_def coinTweets_frame(2))

lemma newsTweets_keeps_coinTweets_once:
  assumes inv: "coinTweets_once db"
  shows "coinTweets_once (processNewsTweets tw db)"
proof -
  let ?db = "processNewsTweets tw db"
  note fr = newsTweets_frame[of tw db]
  from newsTweets_added[of tw db] obtain added where
    a: "db_tweets ?db = db_tweets db @ added"
      "\<forall>f\<in>set added. tw_coinId f = None"
    by blast
  have mf: "List.map_filter tw_coinId (db_tweets ?db) = List.map_filter tw_coinId (db_tweets db)"
    using a by (simp add: map_filter_added_None )
  have "posted_once c_id c_isPosted tw_coinId (\<lambda>k. k) (\<lambda>x. x)
          (db_coins db) (db_tweets ?db)
      = posted_once c_id c_isPosted tw_coinId (\<lambda>k. k) (\<lambda>x. x)
          (db_coins db) (db_tweets db)"
    by (rule posted_once_cong[OF refl refl mf])
  with inv show ?thesis
    by (simp add: coinTweets_once_def fr(1))
qed

lemma newsTweets_keeps_newsMessages_once:
  assumes inv: "newsMessages_once tg db"
  shows "newsMessages_once tg (processNewsTweets tw db)"
proof -
  let ?db = "processNewsTweets tw db"
  note fr = newsTweets_frame[of tw db]
  have ids: "map n_id (db_news ?db) = map n_id (db_news db)"
    by (rule map_proj[OF fr(3)]) simp
  have other: "map n_isTelegramPosted (db_news ?db) = map n_isTelegramPosted (db_news db)"
    by (rule map_proj[OF fr(3)]) simp
  have "posted_once n_id n_isTelegramPosted newsPair (\<lambda>k. (k, tg_channelId tg)) fst
          (db_news ?db) (db_telegramMessages ?db)
      = posted_once n_id n_isTelegramPosted newsPair (\<lambda>k. (k, tg_channelId tg)) fst
          (db_news db) (db_telegramMessages db)"
    by (rule posted_once_cong[OF ids other]) (simp add: fr(2))
  with inv show ?thesis
    by (simp add: newsMessages_once_def)
qed

lemma newsTweets_keeps_coinMessages_once:
  assumes inv: "coinMessages_once tg db"
  shows "coinMessages_once tg (processNewsTweets tw db)"
  using inv by (simp add: coinMessages_once_def newsTweets_frame(1,2))

lemma newsTweets_facts_posted:
  assumes "facts_posted db"
  shows "facts_posted (processNewsTweets tw db)"
  using assms by (simp add: facts_posted_def newsTweets_frame(2))

lemma coinMessages_keeps_newsMessages_once:
  assumes inv: "newsMessages_once tg db"
  shows "newsMessages_once tg (processNewCoinMessages tg send db)"
proof -
  let ?db = "processNewCoinMessages tg send db"
  note fr = coinMessages_frame[of tg send db]
  from coinMessages_added[of tg send db] obtain added where
    a: "db_telegramMessages ?db = db_telegramMessages db @ added"
      "\<forall>f\<in>set added. tm_newsId f = None \<and> tm_isPosted f = True \<and> tm_chatId f = tg_channelId tg"
    by blast
  have mf: "List.map_filter newsPair (db_telegramMessages ?db) = List.map_filter newsPair (db_telegramMessages db)"
    using a by (simp add: map_filter_added_None newsPair_def)
  have "posted_once n_id n_isTelegramPosted newsPair (\<lambda>k. (k, tg_channelId tg)) fst
          (db_news db) (db_telegramMessages ?db)
      = posted_once n_id n_isTelegramPosted newsPair (\<lambda>k. (k, tg_channelId tg)) fst
          (db_news db) (db_telegramMessages db)"
    by (rule posted_once_cong[OF refl refl mf])
  with inv show ?thesis
    by (simp add: newsMessages_once_def fr(1))
qed

lemma coinMessages_keeps_coinTweets_once:
  assumes inv: "coinTweets_once db"
  shows "coinTweets_once (processNewCoinMessages tg send db)"
proof -
  let ?db = "processNewCoinMessages tg send db"
  note fr = coinMessages_frame[of tg send db]
  have ids: "map c_id (db_coins ?db) = map c_id (db_coins db)"
    by (rule map_proj[OF fr(3)]) simp
  have other: "map c_isPosted (db_coins ?db) = map c_isPosted (db_coins db)"
    by (rule map_proj[OF fr(3)]) simp
  have "posted_once c_id c_isPosted tw_coinId (\<lambda>k. k) (\<lambda>x. x)
          (db_coins ?db) (db_tweets ?db)
      = posted_once c_id c_isPosted tw_coinId (\<lambda>k. k) (\<lambda>x. x)
          (db_coins db) (db_tweets db)"
    by (rule posted_once_cong[OF ids other]) (simp add: fr(2))
  with inv show ?thesis
    by (simp add: coinTweets_once_def)
qed

lemma coinMessages_keeps_newsTweets_once:
  assumes inv: "newsTweets_once db"
  shows "newsTweets_once (processNewCoinMessages tg send db)"
  using inv by (simp add: newsTweets_once_def coinMessages_frame(1,2))

lemma coinMessages_facts_posted:
  assumes "facts_posted db"
  shows "facts_posted (processNewCoinMessages tg send db)"
proof -
  from coinMessages_added[of tg send db] obtain added where
    a: "db_telegramMessages (processNewCoinMessages tg send db) = db_telegramMessages db @ added"
      "\<forall>f\<in>set added. tm_newsId f = None \<and> tm_isPosted f = True \<and> tm_chatId f = tg_channelId tg"
    by blast
  with assms show ?thesis by (auto simp: facts_posted_def list_all_iff)
qed

lemma newsMessages_keeps_coinMessages_once:
  assumes inv: "coinMessages_once tg db"
  shows "coinMessages_once tg (processNewsMessages tg send db)"
proof -
  let ?db = "processNewsMessages tg send db"
  note fr = newsMessages_frame[of tg send db]
  from newsMessages_added[of tg send db] obtain added where
    a: "db_telegramMessages ?db = db_telegramMessages db @ added"
      "\<forall>f\<in>set added. tm_coinId f = None \<and> tm_isPosted f = True \<and> tm_chatId f = tg_channelId tg"
    by blast
  have mf: "List.map_filter coinPair (db_telegramMessages ?db) = List.map_filter coinPair (db_telegramMessages db)"
    using a by (simp add: map_filter_added_None coinPair_def)
  have "posted_once c_id c_isTelegramPosted coinPair (\<lambda>k. (k, tg_channelId tg)) fst
          (db_coins db) (db_telegramMessages ?db)
      = posted_once c_id c_isTelegramPosted coinPair (\<lambda>k. (k, tg_channelId tg)) fst
          (db_coins db) (db_telegramMessages db)"
    by (rule posted_once_cong[OF refl refl mf])
  with inv show ?thesis
    by (simp add: coinMessages_once_def fr(1))
qed

lemma newsMessages_keeps_newsTweets_once:
  assumes inv: "newsTweets_once db"
  shows "newsTweets_once (processNewsMessages tg send db)"
proof -
  let ?db = "processNewsMessages tg send db"
  note fr = newsMessages_frame[of tg send db]
  have ids: "map n_id (db_news ?db) = map n_id (db_news db)"
    by (rule map_proj[OF fr(3)]) simp
  have other: "map n_isPosted (db_news ?db) = map n_isPosted (db_news db)"
    by (rule map_proj[OF fr(3)]) simp
  have "posted_once n_id n_isPosted tw_newsId (\<lambda>k. k) (\<lambda>x. x)
          (db_news ?db) (db_tweets ?db)
      = posted_once n_id n_isPosted tw_newsId (\<lambda>k. k) (\<lambda>x. x)
          (db_news db) (db_tweets db)"
    by (rule posted_once_cong[OF ids other]) (simp add: fr(2))
  with inv show ?thesis
    by (simp add: newsTweets_once_def)
qed

lemma newsMessages_keeps_coinTweets_once:
  assumes inv: "coinTweets_once db"
  shows "coinTweets_once (processNewsMessages tg send db)"
  using inv by (simp add: coinTweets_once_def newsMessages_frame(1,2))

lemma newsMessages_facts_posted:
  assumes "facts_posted db"
  shows "facts_posted (processNewsMessages tg send db)"
proof -
  from newsMessages_added[of tg send db] obtain added where
    a: "db_telegramMessages (processNewsMessages tg send db) = db_telegramMessages db @ added"
      "\<forall>f\<in>set added. tm_coinId f = None \<and> tm_isPosted f = True \<and> tm_chatId f = tg_channelId tg"
    by blast
  with assms show ?thesis by (auto simp: facts_posted_def list_all_iff)
qed

subsection \<open>The group task\<close>

lemma find_SomeD: "find P xs = Some x \<Longrightarrow> x \<in> set xs \<and> P x"
  by (induction xs) (auto split: if_splits)

lemma groupNewsToPost_Some:
  assumes "groupNewsToPost tg db = Some (i, n)"
  shows "i < length (db_news db) \<and> n = db_news db ! i
         \<and> \<not> isNewsPostedToDestination (n_id n) (tg_groupId tg) db"
proof -
  let ?all = "find_sorted (\<lambda>n. n_network n = ''general'' \<or> n_network n = ''sui'' \<or> n_network n = ''bnb'')
                n_publishedAt 20 (db_news db)"
  from assms have f: "find (\<lambda>e. \<not> isNewsPostedToDestination (n_id (snd e)) (tg_groupId tg) db) ?all = Some (i, n)"
    by (simp add: groupNewsToPost_def Let_def)
  from find_SomeD[OF f]
  have "(i, n) \<in> set ?all" and np: "\<not> isNewsPostedToDestination (n_id n) (tg_groupId tg) db"
    by simp_all
  from find_sorted_member[OF this(1)] np show ?thesis by simp
qed

lemma processGroupNews_cases:
  "processGroupNews tg send db = db
   \<or> (\<exists>i n mid. groupNewsToPost tg db = Some (i, n) \<and> truthy (tg_groupId tg)
        \<and> processGroupNews tg send db
            = db\<lparr>db_telegramMessages := db_telegramMessages db @
                 [\<lparr>tm_coinId = None, tm_newsId = Some (n_id n), tm_type = NewsPost,
                   tm_messageId = mid, tm_chatId = tg_groupId tg, tm_isPosted = True\<rparr>]\<rparr>)"
  by (auto simp: processGroupNews_def Let_def split: option.splits)

lemma groupNews_frame:
  "db_coins (processGroupNews tg send db) = db_coins db"
  "db_news (processGroupNews tg send db) = db_news db"
  "db_tweets (processGroupNews tg send db) = db_tweets db"
  using processGroupNews_cases[of tg send db] by auto

lemma not_posted_no_pair:
  assumes "\<not> isNewsPostedToDestination newsId chatId db"
    and "list_all (\<lambda>m. tm_isPosted m = True) (db_telegramMessages db)"
  shows "(newsId, chatId) \<notin> set (List.map_filter newsPair (db_telegramMessages db))"
proof
  assume "(newsId, chatId) \<in> set (List.map_filter newsPair (db_telegramMessages db))"
  then obtain m where m: "m \<in> set (db_telegramMessages db)" "newsPair m = Some (newsId, chatId)"
    by (auto simp: set_map_filter)
  from m(2) have "tm_newsId m = Some newsId \<and> tm_chatId m = chatId"
    by (auto simp: newsPair_def)
  moreover from assms(2) m(1) have "tm_isPosted m = True" by (simp add: list_all_iff)
  ultimately have "\<exists>m\<in>set (db_telegramMessages db).
      tm_newsId m = Some newsId \<and> tm_chatId m = chatId \<and> tm_isPosted m = True"
    using m(1) by blast
  with assms(1) show False
    by (auto simp: isNewsPostedToDestination_def find_None_iff)
qed

lemma groupNews_keeps_tweets_once:
  "coinTweets_once db \<Longrightarrow> coinTweets_once (processGroupNews tg send db)"
  "newsTweets_once db \<Longrightarrow> newsTweets_once (processGroupNews tg send db)"
  by (simp_all add: coinTweets_once_def newsTweets_once_def groupNews_frame)

lemma groupNews_facts_posted:
  assumes "facts_posted db"
  shows "facts_posted (processGroupNews tg send db)"
  using processGroupNews_cases[of tg send db] assms
  by (auto simp: facts_posted_def)

lemma groupNews_keeps_coinMessages_once:
  assumes inv: "coinMessages_once tg db"
  shows "coinMessages_once tg (processGroupNews tg send db)"
proof -
  from processGroupNews_cases[of tg send db]
  consider "processGroupNews tg send db = db"
    | n mid where "processGroupNews tg send db
            = db\<lparr>db_telegramMessages := db_telegramMessages db @
                 [\<lparr>tm_coinId = None, tm_newsId = Some (n_id (n::News)), tm_type = NewsPost,
                   tm_messageId = mid, tm_chatId = tg_groupId tg, tm_isPosted = True\<rparr>]\<rparr>"
    by blast
  then show ?thesis
  proof cases
    case 1
    with inv show ?thesis by simp
  next
    case 2
    let ?m = "\<lparr>tm_coinId = None, tm_newsId = Some (n_id n), tm_type = NewsPost,
                   tm_messageId = mid, tm_chatId = tg_groupId tg, tm_isPosted = True\<rparr>"
    let ?tm = "db_telegramMessages db"
    have mfc: "List.map_filter coinPair (?tm @ [?m]) = List.map_filter coinPair ?tm"
      by (simp add: map_filter_append List.map_filter_simps coinPair_def)
    have "posted_once c_id c_isTelegramPosted coinPair (\<lambda>k. (k, tg_channelId tg)) fst
                (db_coins db) (?tm @ [?m])
        = posted_once c_id c_isTelegramPosted coinPair (\<lambda>k. (k, tg_channelId tg)) fst
                (db_coins db) ?tm"
      by (rule posted_once_cong[OF refl refl mfc])
    with inv show ?thesis by (simp add: coinMessages_once_def 2)
  qed
qed

text \<open>
  The group post keeps the invariant of the channel's news loop when the group is another
  chat than the channel: the fact it writes is then no fact of the channel.
\<close>

lemma groupNews_keeps_newsMessages_once:
  assumes inv: "newsMessages_once tg db"
    and p: "facts_posted db"
    and dest: "distinct_chats tg"
  shows "newsMessages_once tg (processGroupNews tg send db)"
proof -
  from processGroupNews_cases[of tg send db]
  consider "processGroupNews tg send db = db"
    | i n mid where "groupNewsToPost tg db = Some (i, n)" "truthy (tg_groupId tg)"
        "processGroupNews tg send db
            = db\<lparr>db_telegramMessages := db_telegramMessages db @
                 [\<lparr>tm_coinId = None, tm_newsId = Some (n_id n), tm_type = NewsPost,
                   tm_messageId = mid, tm_chatId = tg_groupId tg, tm_isPosted = True\<rparr>]\<rparr>"
    by blast
  then show ?thesis
  proof cases
    case 1
    with inv show ?thesis by simp
  next
    case 2
    let ?m = "\<lparr>tm_coinId = None, tm_newsId = Some (n_id n), tm_type = NewsPost,
                   tm_messageId = mid, tm_chatId = tg_groupId tg, tm_isPosted = True\<rparr>"
    let ?tm = "db_telegramMessages db"
    from groupNewsToPost_Some[OF 2(1)] have i: "i < length (db_news db)" "n = db_news db ! i"
      and np: "\<not> isNewsPostedToDestination (n_id n) (tg_groupId tg) db" by blast+
    from dest 2(2) have ne: "tg_channelId tg \<noteq> tg_groupId tg" by (simp add: distinct_chats_def)
    from inv have j4: "posted_once n_id n_isTelegramPosted newsPair (\<lambda>k. (k, tg_channelId tg)) fst
                (db_news db) ?tm"
      by (simp add: newsMessages_once_def)
    from p have p': "list_all (\<lambda>m. tm_isPosted m = True) ?tm" by (simp add: facts_posted_def)
    have mfn: "List.map_filter newsPair (?tm @ [?m]) = List.map_filter newsPair ?tm @ [(n_id n, tg_groupId tg)]"
      by (simp add: map_filter_append List.map_filter_simps newsPair_def)
    from not_posted_no_pair[OF np p']
    have new: "(n_id n, tg_groupId tg) \<notin> set (List.map_filter newsPair ?tm)" .
    from i have nin: "n \<in> set (db_news db)" by simp
    from j4 new ne nin have "posted_once n_id n_isTelegramPosted newsPair (\<lambda>k. (k, tg_channelId tg)) fst
                (db_news db) (?tm @ [?m])"
      unfolding posted_once_def mfn by auto
    then show ?thesis by (simp add: newsMessages_once_def 2(3))
  qed
qed

subsection \<open>The monitoring tasks\<close>

lemma saveNewCoins_loop_appends:
  "\<exists>new. snd (saveNewCoins_loop k found store) = store @ new"
proof (induction found arbitrary: k store)
  case Nil
  then show ?case by simp
next
  case (Cons coinData found)
  show ?case
  proof (cases "coinSave (newCoin coinData) store")
    case (Inl err)
    with Cons[of k store] show ?thesis by (auto split: option.splits)
  next
    case (Inr store')
    from coinSave_keeps[OF Inr] have s: "store' = store @ [newCoin coinData]" by simp
    from Cons[of "k + 1" store'] obtain new where
      "snd (saveNewCoins_loop (k + 1) found store') = store' @ new" by blast
    with s have "snd (saveNewCoins_loop (k + 1) found store') = store @ (newCoin coinData # new)"
      by simp
    with Cons[of k store] Inr show ?thesis by (auto split: option.splits)
  qed
qed

lemma saveNewCoins_loop_ids:
  "distinct (map c_id store) \<Longrightarrow> distinct (map c_id (snd (saveNewCoins_loop k found store)))"
proof (induction found arbitrary: k store)
  case Nil
  then show ?case by simp
next
  case (Cons coinData found)
  show ?case
  proof (cases "coinSave (newCoin coinData) store")
    case (Inl err)
    with Cons show ?thesis by (auto split: option.splits)
  next
    case (Inr store')
    from coinSave_keeps[OF Inr] Cons.prems have "distinct (map c_id store')" by auto
    from Cons.IH[OF this] Cons.IH[OF Cons.prems] Inr show ?thesis by (auto split: option.splits)
  qed
qed

lemma saveNews_appends: "\<exists>new. saveNews found store = store @ new"
proof (induction found arbitrary: store)
  case Nil
  then show ?case by simp
next
  case (Cons newsItem found)
  show ?case
  proof (cases "newsSave (newNews newsItem) store")
    case (Inl err)
    with Cons[of store] show ?thesis by (auto split: option.splits)
  next
    case (Inr store')
    from newsSave_keeps[OF Inr] have s: "store' = store @ [newNews newsItem]" by simp
    from Cons[of store'] obtain new where "saveNews found store' = store' @ new" by blast
    with s have "saveNews found store' = store @ (newNews newsItem # new)" by simp
    with Cons[of store] Inr show ?thesis by (auto split: option.splits)
  qed
qed

lemma saveNews_ids:
  "distinct (map n_id store) \<Longrightarrow> distinct (map n_id (saveNews found store))"
proof (induction found arbitrary: store)
  case Nil
  then show ?case by simp
next
  case (Cons newsItem found)
  show ?case
  proof (cases "newsSave (newNews newsItem) store")
    case (Inl err)
    with Cons show ?thesis by (auto split: option.splits)
  next
    case (Inr store')
    from newsSave_keeps[OF Inr] Cons.prems have "distinct (map n_id store')" by auto
    from Cons.IH[OF this] Cons.IH[OF Cons.prems] Inr show ?thesis by (auto split: option.splits)
  qed
qed

lemma monitorLaunches_keeps:
  "coinTweets_once db \<Longrightarrow> coinTweets_once (db\<lparr>db_coins := snd (saveNewCoins found (db_coins db))\<rparr>)"
  "coinMessages_once tg db
     \<Longrightarrow> coinMessages_once tg (db\<lparr>db_coins := snd (saveNewCoins found (db_coins db))\<rparr>)"
proof -
  from saveNewCoins_loop_appends[of 0 found "db_coins db"] obtain new where
    n: "snd (saveNewCoins found (db_coins db)) = db_coins db @ new"
    by (auto simp: saveNewCoins_def)
  { assume "distinct (map c_id (db_coins db))"
    from saveNewCoins_loop_ids[OF this, of 0 found] n
    have "distinct (map c_id (db_coins db @ new))" by (simp add: saveNewCoins_def) }
  note d = this
  { assume inv: "coinTweets_once db"
    then have "distinct (map c_id (db_coins db))" by (simp add: coinTweets_once_def posted_once_def)
    from posted_once_new_docs[OF inv[unfolded coinTweets_once_def] d[OF this]]
    show "coinTweets_once (db\<lparr>db_coins := snd (saveNewCoins found (db_coins db))\<rparr>)"
      by (simp add: coinTweets_once_def n) }
  { assume inv: "coinMessages_once tg db"
    then have "distinct (map c_id (db_coins db))" by (simp add: coinMessages_once_def posted_once_def)
    from posted_once_new_docs[OF inv[unfolded coinMessages_once_def] d[OF this]]
    show "coinMessages_once tg (db\<lparr>db_coins := snd (saveNewCoins found (db_coins db))\<rparr>)"
      by (simp add: coinMessages_once_def n) }
qed

lemma monitorNews_keeps:
  "newsTweets_once db \<Longrightarrow> newsTweets_once (db\<lparr>db_news := saveNews found (db_news db)\<rparr>)"
  "newsMessages_once tg db \<Longrightarrow> newsMessages_once tg (db\<lparr>db_news := saveNews found (db_news db)\<rparr>)"
proof -
  from saveNews_appends[of found "db_news db"] obtain new where
    n: "saveNews found (db_news db) = db_news db @ new" by blast
  { assume "distinct (map n_id (db_news db))"
    from saveNews_ids[OF this, of found] n
    have "distinct (map n_id (db_news db @ new))" by simp }
  note d = this
  { assume inv: "newsTweets_once db"
    then have "distinct (map n_id (db_news db))" by (simp add: newsTweets_once_def posted_once_def)
    from posted_once_new_docs[OF inv[unfolded newsTweets_once_def] d[OF this]]
    show "newsTweets_once (db\<lparr>db_news := saveNews found (db_news db)\<rparr>)"
      by (simp add: newsTweets_once_def n) }
  { assume inv: "newsMessages_once tg db"
    then have "distinct (map n_id (db_news db))" by (simp add: newsMessages_once_def posted_once_def)
    from posted_once_new_docs[OF inv[unfolded newsMessages_once_def] d[OF this]]
    show "newsMessages_once tg (db\<lparr>db_news := saveNews found (db_news db)\<rparr>)"
      by (simp add: newsMessages_once_def n) }
qed

subsection \<open>The invariants in every reachable state\<close>

lemma run_task_facts_posted:
  assumes "facts_posted db"
  shows "facts_posted (run_task tg t db)"
proof (cases t)
  case (MonitorLaunches found)
  with assms show ?thesis by (simp add: facts_posted_def)
next
  case (MonitorNews found)
  with assms show ?thesis by (simp add: facts_posted_def)
next
  case (PostTweets a b)
  with newsTweets_facts_posted[OF coinTweets_facts_posted[OF assms]] show ?thesis
    by (simp add: processPendingTweets_def)
next
  case (PostMessages a b)
  with newsMessages_facts_posted[OF coinMessages_facts_posted[OF assms]] assms show ?thesis
    by (simp add: processPendingMessages_def)
next
  case (PostGroupNews a)
  with groupNews_facts_posted[OF assms] show ?thesis by simp
qed

lemma run_task_coinTweets_once:
  assumes inv: "coinTweets_once db" and saved: "flags_saved t"
  shows "coinTweets_once (run_task tg t db)"
proof (cases t)
  case (MonitorLaunches found)
  with monitorLaunches_keeps(1)[OF inv] show ?thesis by simp
next
  case (MonitorNews found)
  with inv show ?thesis by (simp add: coinTweets_once_def)
next
  case (PostTweets a b)
  with saved have "\<And>i. snd (a i) \<noteq> FlagSaveRejected" by simp
  from newsTweets_keeps_coinTweets_once[OF coinTweets_posted_once[OF inv this]] PostTweets
  show ?thesis by (simp add: processPendingTweets_def)
next
  case (PostMessages a b)
  with newsMessages_keeps_coinTweets_once[OF coinMessages_keeps_coinTweets_once[OF inv]] inv
  show ?thesis by (simp add: processPendingMessages_def)
next
  case (PostGroupNews a)
  with groupNews_keeps_tweets_once(1)[OF inv] show ?thesis by simp
qed

lemma run_task_newsTweets_once:
  assumes inv: "newsTweets_once db" and saved: "flags_saved t"
  shows "newsTweets_once (run_task tg t db)"
proof (cases t)
  case (MonitorLaunches found)
  with inv show ?thesis by (simp add: newsTweets_once_def)
next
  case (MonitorNews found)
  with monitorNews_keeps(1)[OF inv] show ?thesis by simp
next
  case (PostTweets a b)
  with saved have "\<And>i. snd (b i) \<noteq> FlagSaveRejected" by simp
  from newsTweets_posted_once[OF coinTweets_keeps_newsTweets_once[OF inv] this] PostTweets
  show ?thesis by (simp add: processPendingTweets_def)
next
  case (PostMessages a b)
  with newsMessages_keeps_newsTweets_once[OF coinMessages_keeps_newsTweets_once[OF inv]] inv
  show ?thesis by (simp add: processPendingMessages_def)
next
  case (PostGroupNews a)
  with groupNews_keeps_tweets_once(2)[OF inv] show ?thesis by simp
qed

lemma run_task_coinMessages_once:
  assumes inv: "coinMessages_once tg db" and saved: "flags_saved t"
  shows "coinMessages_once tg (run_task tg t db)"
proof (cases t)
  case (MonitorLaunches found)
  with monitorLaunches_keeps(2)[OF inv] show ?thesis by simp
next
  case (MonitorNews found)
  with inv show ?thesis by (simp add: coinMessages_once_def)
next
  case (PostTweets a b)
  with newsTweets_keeps_coinMessages_once[OF coinTweets_keeps_coinMessages_once[OF inv]]
  show ?thesis by (simp add: processPendingTweets_def)
next
  case (PostMessages a b)
  with saved have "\<And>i. snd (a i) \<noteq> FlagSaveRejected" by simp
  from newsMessages_keeps_coinMessages_once[OF coinMessages_posted_once[OF inv this]] PostMessages inv
  show ?thesis by (simp add: processPendingMessages_def)
next
  case (PostGroupNews a)
  with groupNews_keeps_coinMessages_once[OF inv] show ?thesis by simp
qed

lemma run_task_newsMessages_once:
  assumes inv: "newsMessages_once tg db" and saved: "flags_saved t"
    and p: "facts_posted db" and dest: "distinct_chats tg"
  shows "newsMessages_once tg (run_task tg t db)"
proof (cases t)
  case (MonitorLaunches found)
  with inv show ?thesis by (simp add: newsMessages_once_def)
next
  case (MonitorNews found)
  with monitorNews_keeps(2)[OF inv] show ?thesis by simp
next
  case (PostTweets a b)
  with newsTweets_keeps_newsMessages_once[OF coinTweets_keeps_newsMessages_once[OF inv]]
  show ?thesis by (simp add: processPendingTweets_def)
next
  case (PostMessages a b)
  with saved have "\<And>i. snd (b i) \<noteq> FlagSaveRejected" by simp
  from newsMessages_posted_once[OF coinMessages_keeps_newsMessages_once[OF inv] this] PostMessages inv
  show ?thesis by (simp add: processPendingMessages_def)
next
  case (PostGroupNews a)
  with groupNews_keeps_newsMessages_once[OF inv p dest] show ?thesis by simp
qed

lemma run_tasks_facts_posted:
  "facts_posted db \<Longrightarrow> facts_posted (run_tasks tg tasks db)"
proof (induction tasks arbitrary: db)
  case Nil
  then show ?case by (simp add: run_tasks_def)
next
  case (Cons t tasks)
  from Cons.IH[OF run_task_facts_posted[OF Cons.prems]] show ?case
    by (simp add: run_tasks_def)
qed

lemma run_tasks_once:
  assumes saved: "list_all flags_saved tasks"
  shows "coinTweets_once db \<Longrightarrow> coinTweets_once (run_tasks tg tasks db)"
    and "newsTweets_once db \<Longrightarrow> newsTweets_once (run_tasks tg tasks db)"
    and "coinMessages_once tg db \<Longrightarrow> coinMessages_once tg (run_tasks tg tasks db)"
  using saved
proof (induction tasks arbitrary: db)
  case Nil
  { case 1 then show ?case by (simp add: run_tasks_def) }
  { case 2 then show ?case by (simp add: run_tasks_def) }
  { case 3 then show ?case by (simp add: run_tasks_def) }
next
  case (Cons t tasks)
  { case 1
    then have s: "flags_saved t" "list_all flags_saved tasks" by simp_all
    from Cons.IH(1)[OF run_task_coinTweets_once[OF 1(1) s(1)] s(2)] show ?case
      by (simp add: run_tasks_def) }
  { case 2
    then have s: "flags_saved t" "list_all flags_saved tasks" by simp_all
    from Cons.IH(2)[OF run_task_newsTweets_once[OF 2(1) s(1)] s(2)] show ?case
      by (simp add: run_tasks_def) }
  { case 3
    then have s: "flags_saved t" "list_all flags_saved tasks" by simp_all
    from Cons.IH(3)[OF run_task_coinMessages_once[OF 3(1) s(1)] s(2)] show ?case
      by (simp add: run_tasks_def) }
qed

lemma run_tasks_newsMessages_once:
  assumes dest: "distinct_chats tg"
  shows "list_all flags_saved tasks \<Longrightarrow> facts_posted db \<Longrightarrow> newsMessages_once tg db
         \<Longrightarrow> newsMessages_once tg (run_tasks tg tasks db)"
proof (induction tasks arbitrary: db)
  case Nil
  then show ?case by (simp add: run_tasks_def)
next
  case (Cons t tasks)
  from Cons.prems(1) have s: "flags_saved t" "list_all flags_saved tasks" by simp_all
  from Cons.IH[OF s(2) run_task_facts_posted[OF Cons.prems(2)]
      run_task_newsMessages_once[OF Cons.prems(3) s(1) Cons.prems(2) dest]]
  show ?case by (simp add: run_tasks_def)
qed

lemma emptyDatabase_once:
  "coinTweets_once emptyDatabase" "newsTweets_once emptyDatabase"
  "coinMessages_once tg emptyDatabase" "newsMessages_once tg emptyDatabase"
  "facts_posted emptyDatabase"
  by (simp_all add: coinTweets_once_def newsTweets_once_def coinMessages_once_def
      newsMessages_once_def facts_posted_def posted_once_def emptyDatabase_def List.map_filter_simps)

subsection \<open>Nothing is taken back\<close>

lemma nth_map_eq: "map f xs' = map f xs \<Longrightarrow> i < length xs \<Longrightarrow> f (xs' ! i) = f (xs ! i)"
  by (metis length_map nth_map)

lemma grows_refl: "grows db db"
  by (simp add: grows_def)

lemma take_take_prefix:
  assumes "take (length xs) ys = xs" and "take (length ys) zs = ys"
  shows "take (length xs) zs = xs"
proof -
  from assms(1) have "length (take (length xs) ys) = length xs" by simp
  then have "length xs \<le> length ys" by simp
  then have "take (length xs) zs = take (length xs) (take (length ys) zs)"
    by (simp add: min_def)
  with assms show ?thesis by simp
qed

lemma growsI:
  assumes "length (db_coins db) \<le> length (db_coins db')"
    and "length (db_news db) \<le> length (db_news db')"
    and "\<And>i. i < length (db_coins db) \<Longrightarrow> c_isPosted (db_coins db ! i) \<Longrightarrow> c_isPosted (db_coins db' ! i)"
    and "\<And>i. i < length (db_coins db) \<Longrightarrow> c_isTelegramPosted (db_coins db ! i)
            \<Longrightarrow> c_isTelegramPosted (db_coins db' ! i)"
    and "\<And>i. i < length (db_news db) \<Longrightarrow> n_isPosted (db_news db ! i) \<Longrightarrow> n_isPosted (db_news db' ! i)"
    and "\<And>i. i < length (db_news db) \<Longrightarrow> n_isTelegramPosted (db_news db ! i)
            \<Longrightarrow> n_isTelegramPosted (db_news db' ! i)"
    and "take (length (db_tweets db)) (db_tweets db') = db_tweets db"
    and "take (length (db_telegramMessages db)) (db_telegramMessages db') = db_telegramMessages db"
  shows "grows db db'"
  unfolding grows_def using assms by blast

lemma growsD:
  assumes "grows db db'"
  shows "length (db_coins db) \<le> length (db_coins db')"
    and "length (db_news db) \<le> length (db_news db')"
    and "\<And>i. i < length (db_coins db) \<Longrightarrow> c_isPosted (db_coins db ! i) \<Longrightarrow> c_isPosted (db_coins db' ! i)"
    and "\<And>i. i < length (db_coins db) \<Longrightarrow> c_isTelegramPosted (db_coins db ! i)
            \<Longrightarrow> c_isTelegramPosted (db_coins db' ! i)"
    and "\<And>i. i < length (db_news db) \<Longrightarrow> n_isPosted (db_news db ! i) \<Longrightarrow> n_isPosted (db_news db' ! i)"
    and "\<And>i. i < length (db_news db) \<Longrightarrow> n_isTelegramPosted (db_news db ! i)
            \<Longrightarrow> n_isTelegramPosted (db_news db' ! i)"
    and "take (length (db_tweets db)) (db_tweets db') = db_tweets db"
    and "take (length (db_telegramMessages db)) (db_telegramMessages db') = db_telegramMessages db"
  using assms unfolding grows_def by blast+

lemma grows_trans:
  assumes ab: "grows a b" and bc: "grows b c"
  shows "grows a c"
proof (rule growsI)
  note d1 = growsD[OF ab] and d2 = growsD[OF bc]
  show "length (db_coins a) \<le> length (db_coins c)" using d1(1) d2(1) by (rule order_trans)
  show "length (db_news a) \<le> length (db_news c)" using d1(2) d2(2) by (rule order_trans)
  show "take (length (db_tweets a)) (db_tweets c) = db_tweets a"
    using d1(7) d2(7) by (rule take_take_prefix)
  show "take (length (db_telegramMessages a)) (db_telegramMessages c) = db_telegramMessages a"
    using d1(8) d2(8) by (rule take_take_prefix)
  fix i
  { assume i: "i < length (db_coins a)" and f: "c_isPosted (db_coins a ! i)"
    from i d1(1) have "i < length (db_coins b)" by simp
    from d2(3)[OF this d1(3)[OF i f]] show "c_isPosted (db_coins c ! i)" . }
  { assume i: "i < length (db_coins a)" and f: "c_isTelegramPosted (db_coins a ! i)"
    from i d1(1) have "i < length (db_coins b)" by simp
    from d2(4)[OF this d1(4)[OF i f]] show "c_isTelegramPosted (db_coins c ! i)" . }
  { assume i: "i < length (db_news a)" and f: "n_isPosted (db_news a ! i)"
    from i d1(2) have "i < length (db_news b)" by simp
    from d2(5)[OF this d1(5)[OF i f]] show "n_isPosted (db_news c ! i)" . }
  { assume i: "i < length (db_news a)" and f: "n_isTelegramPosted (db_news a ! i)"
    from i d1(2) have "i < length (db_news b)" by simp
    from d2(6)[OF this d1(6)[OF i f]] show "n_isTelegramPosted (db_news c ! i)" . }
qed

lemma coinTweets_grows: "grows db (processNewCoinTweets tw db)"
proof (rule growsI)
  let ?db = "processNewCoinTweets tw db"
  note fr = coinTweets_frame[of tw db]
  have len: "length (db_coins ?db) = length (db_coins db)"
    using fr(3) by (metis length_map)
  have other: "map c_isTelegramPosted (db_coins ?db) = map c_isTelegramPosted (db_coins db)"
    by (rule map_proj[OF fr(3)]) simp
  show "length (db_coins db) \<le> length (db_coins ?db)" using len fr(1) by simp
  show "length (db_news db) \<le> length (db_news ?db)" using len fr(1) by simp
  show "take (length (db_tweets db)) (db_tweets ?db) = db_tweets db"
    by (rule coinTweets_prefix)
  show "take (length (db_telegramMessages db)) (db_telegramMessages ?db) = db_telegramMessages db"
    using fr(2) by simp
  fix i
  show "i < length (db_coins db) \<Longrightarrow> c_isPosted (db_coins db ! i) \<Longrightarrow> c_isPosted (db_coins ?db ! i)"
    by (rule coinTweets_flag_kept)
  show "i < length (db_coins db) \<Longrightarrow> c_isTelegramPosted (db_coins db ! i) \<Longrightarrow> c_isTelegramPosted (db_coins ?db ! i)"
    using nth_map_eq[OF other, of i] by simp
  show "i < length (db_news db) \<Longrightarrow> n_isPosted (db_news db ! i) \<Longrightarrow> n_isPosted (db_news ?db ! i)"
    using fr(1) by simp
  show "i < length (db_news db) \<Longrightarrow> n_isTelegramPosted (db_news db ! i) \<Longrightarrow> n_isTelegramPosted (db_news ?db ! i)"
    using fr(1) by simp
qed

lemma newsTweets_grows: "grows db (processNewsTweets tw db)"
proof (rule growsI)
  let ?db = "processNewsTweets tw db"
  note fr = newsTweets_frame[of tw db]
  have len: "length (db_news ?db) = length (db_news db)"
    using fr(3) by (metis length_map)
  have other: "map n_isTelegramPosted (db_news ?db) = map n_isTelegramPosted (db_news db)"
    by (rule map_proj[OF fr(3)]) simp
  show "length (db_coins db) \<le> length (db_coins ?db)" using len fr(1) by simp
  show "length (db_news db) \<le> length (db_news ?db)" using len fr(1) by simp
  show "take (length (db_tweets db)) (db_tweets ?db) = db_tweets db"
    by (rule newsTweets_prefix)
  show "take (length (db_telegramMessages db)) (db_telegramMessages ?db) = db_telegramMessages db"
    using fr(2) by simp
  fix i
  show "i < length (db_news db) \<Longrightarrow> n_isPosted (db_news db ! i) \<Longrightarrow> n_isPosted (db_news ?db ! i)"
    by (rule newsTweets_flag_kept)
  show "i < length (db_news db) \<Longrightarrow> n_isTelegramPosted (db_news db ! i) \<Longrightarrow> n_isTelegramPosted (db_news ?db ! i)"
    using nth_map_eq[OF other, of i] by simp
  show "i < length (db_coins db) \<Longrightarrow> c_isPosted (db_coins db ! i) \<Longrightarrow> c_isPosted (db_coins ?db ! i)"
    using fr(1) by simp
  show "i < length (db_coins db) \<Longrightarrow> c_isTelegramPosted (db_coins db ! i) \<Longrightarrow> c_isTelegramPosted (db_coins ?db ! i)"
    using fr(1) by simp
qed

lemma coinMessages_grows: "grows db (processNewCoinMessages tg send db)"
proof (rule growsI)
  let ?db = "processNewCoinMessages tg send db"
  note fr = coinMessages_frame[of tg send db]
  have len: "length (db_coins ?db) = length (db_coins db)"
    using fr(3) by (metis length_map)
  have other: "map c_isPosted (db_coins ?db) = map c_isPosted (db_coins db)"
    by (rule map_proj[OF fr(3)]) simp
  show "length (db_coins db) \<le> length (db_coins ?db)" using len fr(1) by simp
  show "length (db_news db) \<le> length (db_news ?db)" using len fr(1) by simp
  show "take (length (db_telegramMessages db)) (db_telegramMessages ?db) = db_telegramMessages db"
    by (rule coinMessages_prefix)
  show "take (length (db_tweets db)) (db_tweets ?db) = db_tweets db"
    using fr(2) by simp
  fix i
  show "i < length (db_coins db) \<Longrightarrow> c_isTelegramPosted (db_coins db ! i) \<Longrightarrow> c_isTelegramPosted (db_coins ?db ! i)"
    by (rule coinMessages_flag_kept)
  show "i < length (db_coins db) \<Longrightarrow> c_isPosted (db_coins db ! i) \<Longrightarrow> c_isPosted (db_coins ?db ! i)"
    using nth_map_eq[OF other, of i] by simp
  show "i < length (db_news db) \<Longrightarrow> n_isPosted (db_news db ! i) \<Longrightarrow> n_isPosted (db_news ?db ! i)"
    using fr(1) by simp
  show "i < length (db_news db) \<Longrightarrow> n_isTelegramPosted (db_news db ! i) \<Longrightarrow> n_isTelegramPosted (db_news ?db ! i)"
    using fr(1) by simp
qed

lemma newsMessages_grows: "grows db (processNewsMessages tg send db)"
proof (rule growsI)
  let ?db = "processNewsMessages tg send db"
  note fr = newsMessages_frame[of tg send db]
  have len: "length (db_news ?db) = length (db_news db)"
    using fr(3) by (metis length_map)
  have other: "map n_isPosted (db_news ?db) = map n_isPosted (db_news db)"
    by (rule map_proj[OF fr(3)]) simp
  show "length (db_coins db) \<le> length (db_coins ?db)" using len fr(1) by simp
  show "length (db_news db) \<le> length (db_news ?db)" using len fr(1) by simp
  show "take (length (db_telegramMessages db)) (db_telegramMessages ?db) = db_telegramMessages db"
    by (rule newsMessages_prefix)
  show "take (length (db_tweets db)) (db_tweets ?db) = db_tweets db"
    using fr(2) by simp
  fix i
  show "i < length (db_news db) \<Longrightarrow> n_isTelegramPosted (db_news db ! i) \<Longrightarrow> n_isTelegramPosted (db_news ?db ! i)"
    by (rule newsMessages_flag_kept)
  show "i < length (db_news db) \<Longrightarrow> n_isPosted (db_news db ! i) \<Longrightarrow> n_isPosted (db_news ?db ! i)"
    using nth_map_eq[OF other, of i] by simp
  show "i < length (db_coins db) \<Longrightarrow> c_isPosted (db_coins db ! i) \<Longrightarrow> c_isPosted (db_coins ?db ! i)"
    using fr(1) by simp
  show "i < length (db_coins db) \<Longrightarrow> c_isTelegramPosted (db_coins db ! i) \<Longrightarrow> c_isTelegramPosted (db_coins ?db ! i)"
    using fr(1) by simp
qed

lemma appended_grows_coins: "grows db (db\<lparr>db_coins := db_coins db @ new\<rparr>)"
  by (rule growsI) (simp_all add: nth_append)

lemma appended_grows_news: "grows db (db\<lparr>db_news := db_news db @ new\<rparr>)"
  by (rule growsI) (simp_all add: nth_append)

lemma groupNews_grows: "grows db (processGroupNews tg send db)"
proof -
  from processGroupNews_cases[of tg send db]
  consider "processGroupNews tg send db = db"
    | m where "processGroupNews tg send db
                 = db\<lparr>db_telegramMessages := db_telegramMessages db @ [m]\<rparr>"
    by blast
  then show ?thesis
  proof cases
    case 1
    then show ?thesis by (simp add: grows_refl)
  next
    case 2
    have "grows db (db\<lparr>db_telegramMessages := db_telegramMessages db @ [m]\<rparr>)"
      by (rule growsI) simp_all
    with 2 show ?thesis by simp
  qed
qed

lemma run_task_grows: "grows db (run_task tg t db)"
proof (cases t)
  case (MonitorLaunches found)
  from saveNewCoins_loop_appends[of 0 found "db_coins db"] obtain new where
    "snd (saveNewCoins found (db_coins db)) = db_coins db @ new"
    by (auto simp: saveNewCoins_def)
  with MonitorLaunches appended_grows_coins[of db new] show ?thesis by simp
next
  case (MonitorNews found)
  from saveNews_appends[of found "db_news db"] obtain new where
    "saveNews found (db_news db) = db_news db @ new" by blast
  with MonitorNews appended_grows_news[of db new] show ?thesis by simp
next
  case (PostTweets a b)
  have "grows db (processNewsTweets b (processNewCoinTweets a db))"
    by (rule grows_trans[OF coinTweets_grows newsTweets_grows])
  with PostTweets show ?thesis by (simp add: processPendingTweets_def)
next
  case (PostMessages a b)
  have "grows db (processNewsMessages tg b (processNewCoinMessages tg a db))"
    by (rule grows_trans[OF coinMessages_grows newsMessages_grows])
  with PostMessages show ?thesis by (simp add: processPendingMessages_def grows_refl)
next
  case (PostGroupNews a)
  with groupNews_grows[of db tg a] show ?thesis by simp
qed

lemma run_tasks_grows: "grows db (run_tasks tg tasks db)"
proof (induction tasks arbitrary: db)
  case Nil
  then show ?case by (simp add: run_tasks_def grows_refl)
next
  case (Cons t tasks)
  have "grows db (run_task tg t db)" by (rule run_task_grows)
  moreover have "grows (run_task tg t db) (run_tasks tg tasks (run_task tg t db))" by (rule Cons.IH)
  ultimately have "grows db (run_tasks tg tasks (run_task tg t db))" by (rule grows_trans)
  then show ?case by (simp add: run_tasks_def)
qed

subsection \<open>At most one publication per item and destination\<close>

lemma coinPair_eq: "(coinPair m = Some (c, chat)) = (tm_coinId m = Some c \<and> tm_chatId m = chat)"
  by (cases "tm_coinId m") (auto simp: coinPair_def)

lemma newsPair_eq: "(newsPair m = Some (n, chat)) = (tm_newsId m = Some n \<and> tm_chatId m = chat)"
  by (cases "tm_newsId m") (auto simp: newsPair_def)

lemma once_at_most_one:
  "coinTweets_once db \<Longrightarrow> length (tweetsFor_coin coinId db) \<le> 1"
  "newsTweets_once db \<Longrightarrow> length (tweetsFor_news newsId db) \<le> 1"
  "coinMessages_once tg db \<Longrightarrow> length (messagesFor_coin coinId chatId db) \<le> 1"
  "newsMessages_once tg db \<Longrightarrow> length (messagesFor_news newsId chatId db) \<le> 1"
proof -
  { assume "coinTweets_once db"
    then have "distinct (List.map_filter tw_coinId (db_tweets db))"
      by (simp add: coinTweets_once_def posted_once_def)
    from distinct_map_filter_count[OF this, of coinId]
    show "length (tweetsFor_coin coinId db) \<le> 1" by (simp add: tweetsFor_coin_def) }
  { assume "newsTweets_once db"
    then have "distinct (List.map_filter tw_newsId (db_tweets db))"
      by (simp add: newsTweets_once_def posted_once_def)
    from distinct_map_filter_count[OF this, of newsId]
    show "length (tweetsFor_news newsId db) \<le> 1" by (simp add: tweetsFor_news_def) }
  { assume "coinMessages_once tg db"
    then have "distinct (List.map_filter coinPair (db_telegramMessages db))"
      by (simp add: coinMessages_once_def posted_once_def)
    from distinct_map_filter_count[OF this, of "(coinId, chatId)"]
    show "length (messagesFor_coin coinId chatId db) \<le> 1"
      by (simp add: messagesFor_coin_def coinPair_eq) }
  { assume "newsMessages_once tg db"
    then have "distinct (List.map_filter newsPair (db_telegramMessages db))"
      by (simp add: newsMessages_once_def posted_once_def)
    from distinct_map_filter_count[OF this, of "(newsId, chatId)"]
    show "length (messagesFor_news newsId chatId db) \<le> 1"
      by (simp add: messagesFor_news_def newsPair_eq) }
qed

lemma filter_prefix_once:
  assumes "take (length xs) ys = xs" and "length (filter P ys) \<le> 1" and "filter P xs \<noteq> []"
  shows "filter P ys = filter P xs"
proof -
  let ?rest = "filter P (drop (length xs) ys)"
  have "ys = take (length xs) ys @ drop (length xs) ys" by simp
  with assms(1) have ys: "ys = xs @ drop (length xs) ys" by simp
  have split: "filter P ys = filter P xs @ ?rest"
    by (subst ys) simp
  then have "length (filter P ys) = length (filter P xs) + length ?rest"
    by (metis length_append)
  moreover from assms(3) have "length (filter P xs) \<ge> 1" by (cases "filter P xs") simp_all
  ultimately have "length ?rest = 0" using assms(2) by linarith
  then have "?rest = []" by (rule iffD1[OF length_0_conv])
  with split show ?thesis by simp
qed

lemma filter_prefix_empty:
  assumes "take (length xs) ys = xs" and "filter P ys = []"
  shows "filter P xs = []"
proof -
  from assms(1) have "set xs \<subseteq> set ys" by (metis set_take_subset)
  with assms(2) show ?thesis by (auto simp: filter_empty_conv)
qed

lemma selected_not_flagged:
  assumes sel: "(i, d) \<in> set (find_sorted (\<lambda>d. flag d = False) key limit docs')"
    and kept: "\<And>i. i < length docs \<Longrightarrow> flag (docs ! i) \<Longrightarrow> flag (docs' ! i)"
  shows "\<not> (i < length docs \<and> flag (docs ! i))"
proof
  assume "i < length docs \<and> flag (docs ! i)"
  then have "flag (docs' ! i)" using kept by blast
  with find_sorted_member[OF sel] show False by blast
qed

lemma group_selected_no_fact:
  assumes p: "facts_posted later" and g: "groupNewsToPost tg later = Some (i, n)"
    and pre: "take (length (db_telegramMessages db)) (db_telegramMessages later) = db_telegramMessages db"
  shows "messagesFor_news (n_id n) (tg_groupId tg) db = []"
proof -
  from p have p': "list_all (\<lambda>m. tm_isPosted m = True) (db_telegramMessages later)"
    by (simp add: facts_posted_def)
  from groupNewsToPost_Some[OF g]
  have "\<not> isNewsPostedToDestination (n_id n) (tg_groupId tg) later" by blast
  from not_posted_no_pair[OF this p']
  have "\<forall>m\<in>set (db_telegramMessages later). newsPair m \<noteq> Some (n_id n, tg_groupId tg)"
    by (auto simp: set_map_filter)
  then have "filter (\<lambda>m. tm_newsId m = Some (n_id n) \<and> tm_chatId m = tg_groupId tg)
      (db_telegramMessages later) = []"
    by (simp add: filter_empty_conv newsPair_eq)
  from filter_prefix_empty[OF pre this] show ?thesis by (simp add: messagesFor_news_def)
qed

text \<open>
  Claim C1, as the code has it. Let \<open>db\<close> be a state reached from the empty database by
  monitoring runs and publish cycles (tweets, Telegram channel messages, Telegram group
  news) that follow one another, and \<open>later\<close> a state reached from \<open>db\<close> by further tasks.

  Without any condition: an item that a later cycle selects for a destination did not have
  its posted flag for that destination set in \<open>db\<close> (for the group, which has no flag: it
  had no fact for the group's chat).

  Recording a send is no operation that looks for an earlier fact: it appends one. That
  every item has at most one fact per destination holds when no save of a flag was rejected
  after the save of its fact, and, for the news facts of a chat, when the group is another
  chat than the channel. Under the same conditions on the further tasks, an item that has a
  fact for a destination in \<open>db\<close> has exactly that fact in \<open>later\<close>: no cycle records a
  second one.
\<close>

theorem publication_recorded_once:
  assumes db: "db = run_tasks tg tasks emptyDatabase"
    and later: "later = run_tasks tg further db"
  shows "list_all (\<lambda>(i, d). \<not> (i < length (db_coins db) \<and> c_isPosted (db_coins db ! i)))
            (tweet_unpostedCoins later)
       \<and> list_all (\<lambda>(i, d). \<not> (i < length (db_news db) \<and> n_isPosted (db_news db ! i)))
            (tweet_unpostedNews later)
       \<and> list_all (\<lambda>(i, d). \<not> (i < length (db_coins db) \<and> c_isTelegramPosted (db_coins db ! i)))
            (telegram_unpostedCoins later)
       \<and> list_all (\<lambda>(i, d). \<not> (i < length (db_news db) \<and> n_isTelegramPosted (db_news db ! i)))
            (telegram_unpostedNews later)
       \<and> (case groupNewsToPost tg later of
             None \<Rightarrow> True
           | Some (i, n) \<Rightarrow> messagesFor_news (n_id n) (tg_groupId tg) db = [])
       \<and> (list_all flags_saved tasks \<longrightarrow>
             length (tweetsFor_coin coinId db) \<le> 1
             \<and> length (tweetsFor_news newsId db) \<le> 1
             \<and> length (messagesFor_coin coinId chatId db) \<le> 1
             \<and> (distinct_chats tg \<longrightarrow> length (messagesFor_news newsId chatId db) \<le> 1)
             \<and> (list_all flags_saved further \<longrightarrow>
                   (tweetsFor_coin coinId db \<noteq> []
                      \<longrightarrow> tweetsFor_coin coinId later = tweetsFor_coin coinId db)
                   \<and> (tweetsFor_news newsId db \<noteq> []
                      \<longrightarrow> tweetsFor_news newsId later = tweetsFor_news newsId db)
                   \<and> (messagesFor_coin coinId chatId db \<noteq> []
                      \<longrightarrow> messagesFor_coin coinId chatId later = messagesFor_coin coinId chatId db)
                   \<and> (distinct_chats tg \<longrightarrow> messagesFor_news newsId chatId db \<noteq> []
                      \<longrightarrow> messagesFor_news newsId chatId later = messagesFor_news newsId chatId db)))"
proof -
  have p: "facts_posted db"
    unfolding db by (rule run_tasks_facts_posted[OF emptyDatabase_once(5)])
  have p': "facts_posted later"
    unfolding later by (rule run_tasks_facts_posted[OF p])
  have g: "grows db later" unfolding later by (rule run_tasks_grows)
  note gd = growsD[OF g]
  have s1: "list_all (\<lambda>(i, d). \<not> (i < length (db_coins db) \<and> c_isPosted (db_coins db ! i)))
            (tweet_unpostedCoins later)"
    unfolding list_all_iff tweet_unpostedCoins_def
    using selected_not_flagged[of _ _ c_isPosted c_launchTime 2 "db_coins later" "db_coins db"] gd(3)
    by blast
  have s2: "list_all (\<lambda>(i, d). \<not> (i < length (db_news db) \<and> n_isPosted (db_news db ! i)))
            (tweet_unpostedNews later)"
    unfolding list_all_iff tweet_unpostedNews_def
    using selected_not_flagged[of _ _ n_isPosted n_publishedAt 1 "db_news later" "db_news db"] gd(5)
    by blast
  have s3: "list_all (\<lambda>(i, d). \<not> (i < length (db_coins db) \<and> c_isTelegramPosted (db_coins db ! i)))
            (telegram_unpostedCoins later)"
    unfolding list_all_iff telegram_unpostedCoins_def
    using selected_not_flagged[of _ _ c_isTelegramPosted c_launchTime 2 "db_coins later" "db_coins db"] gd(4)
    by blast
  have s4: "list_all (\<lambda>(i, d). \<not> (i < length (db_news db) \<and> n_isTelegramPosted (db_news db ! i)))
            (telegram_unpostedNews later)"
    unfolding list_all_iff telegram_unpostedNews_def
    using selected_not_flagged[of _ _ n_isTelegramPosted n_publishedAt 1 "db_news later" "db_news db"] gd(6)
    by blast
  have s5: "(case groupNewsToPost tg later of
             None \<Rightarrow> True
           | Some (i, n) \<Rightarrow> messagesFor_news (n_id n) (tg_groupId tg) db = [])"
    using group_selected_no_fact[OF p' _ gd(8)] by (auto split: option.splits)
  have c: "length (tweetsFor_coin coinId db) \<le> 1
             \<and> length (tweetsFor_news newsId db) \<le> 1
             \<and> length (messagesFor_coin coinId chatId db) \<le> 1
             \<and> (distinct_chats tg \<longrightarrow> length (messagesFor_news newsId chatId db) \<le> 1)"
    if saved: "list_all flags_saved tasks"
  proof -
    have o: "coinTweets_once db" "newsTweets_once db" "coinMessages_once tg db"
      unfolding db
      by (rule run_tasks_once(1)[OF saved emptyDatabase_once(1)],
          rule run_tasks_once(2)[OF saved emptyDatabase_once(2)],
          rule run_tasks_once(3)[OF saved emptyDatabase_once(3)])
    have "distinct_chats tg \<longrightarrow> length (messagesFor_news newsId chatId db) \<le> 1"
    proof
      assume "distinct_chats tg"
      from run_tasks_newsMessages_once[OF this saved emptyDatabase_once(5) emptyDatabase_once(4)]
      have "newsMessages_once tg db" by (simp add: db)
      then show "length (messagesFor_news newsId chatId db) \<le> 1" by (rule once_at_most_one(4))
    qed
    with once_at_most_one(1)[OF o(1), of coinId] once_at_most_one(2)[OF o(2), of newsId]
      once_at_most_one(3)[OF o(3), of coinId chatId]
    show ?thesis by blast
  qed
  have k: "(tweetsFor_coin coinId db \<noteq> []
                      \<longrightarrow> tweetsFor_coin coinId later = tweetsFor_coin coinId db)
                   \<and> (tweetsFor_news newsId db \<noteq> []
                      \<longrightarrow> tweetsFor_news newsId later = tweetsFor_news newsId db)
                   \<and> (messagesFor_coin coinId chatId db \<noteq> []
                      \<longrightarrow> messagesFor_coin coinId chatId later = messagesFor_coin coinId chatId db)
                   \<and> (distinct_chats tg \<longrightarrow> messagesFor_news newsId chatId db \<noteq> []
                      \<longrightarrow> messagesFor_news newsId chatId later = messagesFor_news newsId chatId db)"
    if saved: "list_all flags_saved tasks" and saved': "list_all flags_saved further"
  proof -
    have o: "coinTweets_once db" "newsTweets_once db" "coinMessages_once tg db"
      unfolding db
      by (rule run_tasks_once(1)[OF saved emptyDatabase_once(1)],
          rule run_tasks_once(2)[OF saved emptyDatabase_once(2)],
          rule run_tasks_once(3)[OF saved emptyDatabase_once(3)])
    have o': "coinTweets_once later" "newsTweets_once later" "coinMessages_once tg later"
      unfolding later
      by (rule run_tasks_once(1)[OF saved' o(1)],
          rule run_tasks_once(2)[OF saved' o(2)],
          rule run_tasks_once(3)[OF saved' o(3)])
    have k1: "tweetsFor_coin coinId db \<noteq> [] \<longrightarrow> tweetsFor_coin coinId later = tweetsFor_coin coinId db"
      using filter_prefix_once[OF gd(7), of "\<lambda>t. tw_coinId t = Some coinId"]
        once_at_most_one(1)[OF o'(1), of coinId]
      by (simp add: tweetsFor_coin_def)
    have k2: "tweetsFor_news newsId db \<noteq> [] \<longrightarrow> tweetsFor_news newsId later = tweetsFor_news newsId db"
      using filter_prefix_once[OF gd(7), of "\<lambda>t. tw_newsId t = Some newsId"]
        once_at_most_one(2)[OF o'(2), of newsId]
      by (simp add: tweetsFor_news_def)
    have k3: "messagesFor_coin coinId chatId db \<noteq> []
            \<longrightarrow> messagesFor_coin coinId chatId later = messagesFor_coin coinId chatId db"
      using filter_prefix_once[OF gd(8), of "\<lambda>m. tm_coinId m = Some coinId \<and> tm_chatId m = chatId"]
        once_at_most_one(3)[OF o'(3), of coinId chatId]
      by (simp add: messagesFor_coin_def)
    have k4: "distinct_chats tg \<longrightarrow> messagesFor_news newsId chatId db \<noteq> []
            \<longrightarrow> messagesFor_news newsId chatId later = messagesFor_news newsId chatId db"
    proof
      assume dest: "distinct_chats tg"
      from run_tasks_newsMessages_once[OF dest saved emptyDatabase_once(5) emptyDatabase_once(4)]
      have "newsMessages_once tg db" by (simp add: db)
      from run_tasks_newsMessages_once[OF dest saved' p this]
      have "newsMessages_once tg later" by (simp add: later)
      from filter_prefix_once[OF gd(8), of "\<lambda>m. tm_newsId m = Some newsId \<and> tm_chatId m = chatId"]
        once_at_most_one(4)[OF this, of newsId chatId]
      show "messagesFor_news newsId chatId db \<noteq> []
            \<longrightarrow> messagesFor_news newsId chatId later = messagesFor_news newsId chatId db"
        by (simp add: messagesFor_news_def)
    qed
    from k1 k2 k3 k4 show ?thesis by blast
  qed
  from s1 s2 s3 s4 s5 c k show ?thesis by blast
qed

text \<open>
  Two runs in which a second fact is recorded. In the first the channel and the group are
  one chat: the news item is posted to the group, which sets no flag, and then to the
  channel, and the chat has two facts for it. In the second the save of a coin's flag is
  rejected after the save of its tweet: the next cycle selects the coin again and records
  a second tweet.
\<close>

theorem publication_twice_counterexample:
  "length (messagesFor_news ''news_sui_0_1'' (Some ''-100123'')
             (run_tasks oneChatTelegram oneChatTasks emptyDatabase)) = 2
   \<and> length (tweetsFor_coin ''0xab'' (run_tasks exampleTelegram flagLostTasks emptyDatabase)) = 2"
  by code_simp

lemma example_run:
  "run_tasks exampleTelegram exampleTasks emptyDatabase
   = \<lparr>db_coins = [(newCoin (exampleCoin ''0xab'' 1000))\<lparr>c_isPosted := True, c_isTelegramPosted := True\<rparr>,
                  (newCoin (exampleCoin ''0xcd'' 2000))\<lparr>c_isPosted := True, c_isTelegramPosted := True\<rparr>],
      db_news = [(newNews (exampleNews ''news_sui_0_1'' ''Sui up'' ''sui'' 10))\<lparr>n_isTelegramPosted := True\<rparr>],
      db_tweets =
        [\<lparr>tw_coinId = Some ''0xcd'', tw_newsId = None, tw_type = Launch,
          tw_tweetId = Some ''1780000000000000001'', tw_isPosted = True\<rparr>,
         \<lparr>tw_coinId = Some ''0xab'', tw_newsId = None, tw_type = Launch,
          tw_tweetId = Some ''1780000000000000001'', tw_isPosted = True\<rparr>],
      db_telegramMessages =
        [\<lparr>tm_coinId = Some ''0xcd'', tm_newsId = None, tm_type = Launch,
          tm_messageId = Some 41, tm_chatId = Some ''@launches'', tm_isPosted = True\<rparr>,
         \<lparr>tm_coinId = Some ''0xab'', tm_newsId = None, tm_type = Launch,
          tm_messageId = Some 41, tm_chatId = Some ''@launches'', tm_isPosted = True\<rparr>,
         \<lparr>tm_coinId = None, tm_newsId = Some ''news_sui_0_1'', tm_type = NewsPost,
          tm_messageId = Some 42, tm_chatId = Some ''@launches'', tm_isPosted = True\<rparr>,
         \<lparr>tm_coinId = None, tm_newsId = Some ''news_sui_0_1'', tm_type = NewsPost,
          tm_messageId = Some 43, tm_chatId = Some ''-100123'', tm_isPosted = True\<rparr>]\<rparr>"
  by code_simp

lemma example_rerun:
  "run_tasks exampleTelegram exampleTasks (run_tasks exampleTelegram exampleTasks emptyDatabase)
   = run_tasks exampleTelegram exampleTasks emptyDatabase"
  by code_simp

theorem publication_recorded_once_witness:
  "tg_channelId exampleTelegram \<noteq> tg_groupId exampleTelegram
   \<and> tweetsFor_coin ''0xab'' (run_tasks exampleTelegram exampleTasks emptyDatabase) \<noteq> []
   \<and> length (tweetsFor_coin ''0xab'' (run_tasks exampleTelegram exampleTasks emptyDatabase)) \<le> 1
   \<and> tweetsFor_coin ''0xab''
        (run_tasks exampleTelegram exampleTasks (run_tasks exampleTelegram exampleTasks emptyDatabase))
      = tweetsFor_coin ''0xab'' (run_tasks exampleTelegram exampleTasks emptyDatabase)
   \<and> messagesFor_news ''news_sui_0_1'' (Some ''-100123'')
        (run_tasks exampleTelegram exampleTasks emptyDatabase) \<noteq> []
   \<and> messagesFor_news ''news_sui_0_1'' (Some ''-100123'')
        (run_tasks exampleTelegram exampleTasks (run_tasks exampleTelegram exampleTasks emptyDatabase))
      = messagesFor_news ''news_sui_0_1'' (Some ''-100123'')
          (run_tasks exampleTelegram exampleTasks emptyDatabase)"
proof -
  have ne: "tg_channelId exampleTelegram \<noteq> tg_groupId exampleTelegram"
    by (simp add: exampleTelegram_def)
  then have dest: "distinct_chats exampleTelegram" by (simp add: distinct_chats_def)
  have saved: "list_all flags_saved exampleTasks" by (simp add: exampleTasks_def)
  have t: "tweetsFor_coin ''0xab'' (run_tasks exampleTelegram exampleTasks emptyDatabase) \<noteq> []"
    by (simp add: example_run tweetsFor_coin_def)
  have m: "messagesFor_news ''news_sui_0_1'' (Some ''-100123'')
        (run_tasks exampleTelegram exampleTasks emptyDatabase) \<noteq> []"
    by (simp add: example_run messagesFor_news_def)
  from publication_recorded_once[where tg = exampleTelegram and tasks = exampleTasks
      and further = exampleTasks and coinId = "''0xab''" and newsId = "''news_sui_0_1''"
      and chatId = "Some ''-100123''", OF refl refl] dest saved ne t m
  show ?thesis by blast
qed

subsection \<open>Destinations are independent\<close>

lemma map_comp_eq: "map f xs' = map f xs \<Longrightarrow> map (\<lambda>x. g (f x)) xs' = map (\<lambda>x. g (f x)) xs"
proof -
  assume "map f xs' = map f xs"
  then have "map g (map f xs') = map g (map f xs)" by simp
  then show ?thesis by (simp add: comp_def)
qed

lemma find_map: "find P (map f xs) = map_option f (find (\<lambda>x. P (f x)) xs)"
  by (induction xs) auto

lemma posted_to_destination_iff:
  "isNewsPostedToDestination newsId chatId db
   = (\<exists>m\<in>set (db_telegramMessages db).
        tm_newsId m = Some newsId \<and> tm_chatId m = chatId \<and> tm_isPosted m = True)"
  by (auto simp: isNewsPostedToDestination_def find_None_iff)

lemma groupNewsToPost_positions:
  "map_option fst (groupNewsToPost tg db)
   = find (\<lambda>i. \<not> isNewsPostedToDestination (n_id (db_news db ! i)) (tg_groupId tg) db)
       (map fst (find_sorted
                   (\<lambda>n. n_network n = ''general'' \<or> n_network n = ''sui'' \<or> n_network n = ''bnb'')
                   n_publishedAt 20 (db_news db)))"
  by (simp add: groupNewsToPost_def Let_def find_sorted_def find_map option.map_comp comp_def
      option.map_ident)

lemma groupNewsToPost_cong:
  assumes net: "map n_network (db_news db') = map n_network (db_news db)"
    and pub: "map n_publishedAt (db_news db') = map n_publishedAt (db_news db)"
    and ids: "map n_id (db_news db') = map n_id (db_news db)"
    and posted: "\<And>newsId. isNewsPostedToDestination newsId (tg_groupId tg) db'
                   = isNewsPostedToDestination newsId (tg_groupId tg) db"
  shows "map_option fst (groupNewsToPost tg db') = map_option fst (groupNewsToPost tg db)"
proof -
  let ?q = "\<lambda>n. n_network n = ''general'' \<or> n_network n = ''sui'' \<or> n_network n = ''bnb''"
  have q: "map ?q (db_news db') = map ?q (db_news db)"
    using map_comp_eq[OF net, of "\<lambda>x. x = ''general'' \<or> x = ''sui'' \<or> x = ''bnb''"] by simp
  have pos: "map fst (find_sorted ?q n_publishedAt 20 (db_news db'))
           = map fst (find_sorted ?q n_publishedAt 20 (db_news db))"
    by (rule find_sorted_cong[OF q pub])
  have "find (\<lambda>i. \<not> isNewsPostedToDestination (n_id (db_news db' ! i)) (tg_groupId tg) db')
          (map fst (find_sorted ?q n_publishedAt 20 (db_news db)))
      = find (\<lambda>i. \<not> isNewsPostedToDestination (n_id (db_news db ! i)) (tg_groupId tg) db)
          (map fst (find_sorted ?q n_publishedAt 20 (db_news db)))"
  proof (rule find_cong[OF refl])
    fix i assume "i \<in> set (map fst (find_sorted ?q n_publishedAt 20 (db_news db)))"
    then obtain d where "(i, d) \<in> set (find_sorted ?q n_publishedAt 20 (db_news db))" by auto
    from find_sorted_member[OF this] have "i < length (db_news db)" by simp
    from nth_map_eq[OF ids this] posted
    show "(\<not> isNewsPostedToDestination (n_id (db_news db' ! i)) (tg_groupId tg) db')
        = (\<not> isNewsPostedToDestination (n_id (db_news db ! i)) (tg_groupId tg) db)"
      by simp
  qed
  then show ?thesis
    by (simp only: groupNewsToPost_positions pos)
qed

lemma unposted_cong:
  assumes "map flag docs' = map flag docs" and "map key docs' = map key docs"
  shows "map fst (find_sorted (\<lambda>d. flag d = False) key limit docs')
       = map fst (find_sorted (\<lambda>d. flag d = False) key limit docs)"
  by (rule find_sorted_cong[OF map_comp_eq[OF assms(1), of "\<lambda>b. b = False"] assms(2)])

text \<open>processPendingTweets\<close>

lemma pendingTweets_frame:
  "map (\<lambda>c. c\<lparr>c_isPosted := False\<rparr>) (db_coins (processPendingTweets a b db))
     = map (\<lambda>c. c\<lparr>c_isPosted := False\<rparr>) (db_coins db)"
  "map (\<lambda>n. n\<lparr>n_isPosted := False\<rparr>) (db_news (processPendingTweets a b db))
     = map (\<lambda>n. n\<lparr>n_isPosted := False\<rparr>) (db_news db)"
  "db_telegramMessages (processPendingTweets a b db) = db_telegramMessages db"
  by (simp_all add: processPendingTweets_def newsTweets_frame coinTweets_frame)

lemma pendingMessages_frame:
  "map (\<lambda>c. c\<lparr>c_isTelegramPosted := False\<rparr>) (db_coins (processPendingMessages tg a b db))
     = map (\<lambda>c. c\<lparr>c_isTelegramPosted := False\<rparr>) (db_coins db)"
  "map (\<lambda>n. n\<lparr>n_isTelegramPosted := False\<rparr>) (db_news (processPendingMessages tg a b db))
     = map (\<lambda>n. n\<lparr>n_isTelegramPosted := False\<rparr>) (db_news db)"
  "db_tweets (processPendingMessages tg a b db) = db_tweets db"
  by (simp_all add: processPendingMessages_def newsMessages_frame coinMessages_frame)

lemma pendingMessages_added:
  "\<exists>added. db_telegramMessages (processPendingMessages tg a b db) = db_telegramMessages db @ added
     \<and> (\<forall>m\<in>set added. tm_chatId m = tg_channelId tg)"
proof (cases "tg_enabled tg")
  case False
  then show ?thesis by (simp add: processPendingMessages_def)
next
  case True
  let ?db1 = "processNewCoinMessages tg a db"
  from coinMessages_added[of tg a db] obtain x where
    x: "db_telegramMessages ?db1 = db_telegramMessages db @ x" "\<forall>m\<in>set x. tm_chatId m = tg_channelId tg"
    by blast
  from newsMessages_added[of tg b ?db1] obtain y where
    y: "db_telegramMessages (processNewsMessages tg b ?db1) = db_telegramMessages ?db1 @ y"
      "\<forall>m\<in>set y. tm_chatId m = tg_channelId tg"
    by blast
  from x y have "db_telegramMessages (processNewsMessages tg b ?db1) = db_telegramMessages db @ (x @ y)"
    "\<forall>m\<in>set (x @ y). tm_chatId m = tg_channelId tg" by auto
  with True show ?thesis unfolding processPendingMessages_def by (simp only: if_False not_True_eq_False) blast
qed

lemma groupNews_added:
  "\<exists>added. db_telegramMessages (processGroupNews tg send db) = db_telegramMessages db @ added
     \<and> (\<forall>m\<in>set added. tm_chatId m = tg_groupId tg \<and> tm_coinId m = None)"
proof -
  from processGroupNews_cases[of tg send db]
  consider "processGroupNews tg send db = db"
    | n mid where "processGroupNews tg send db
            = db\<lparr>db_telegramMessages := db_telegramMessages db @
                 [\<lparr>tm_coinId = None, tm_newsId = Some (n_id (n::News)), tm_type = NewsPost,
                   tm_messageId = mid, tm_chatId = tg_groupId tg, tm_isPosted = True\<rparr>]\<rparr>"
    by blast
  then show ?thesis
  proof cases
    case 1
    then have "db_telegramMessages (processGroupNews tg send db) = db_telegramMessages db @ []" by simp
    then show ?thesis by (metis empty_iff list.set(1))
  next
    case 2
    let ?m = "\<lparr>tm_coinId = None, tm_newsId = Some (n_id n), tm_type = NewsPost,
                   tm_messageId = mid, tm_chatId = tg_groupId tg, tm_isPosted = True\<rparr>"
    from 2 have "db_telegramMessages (processGroupNews tg send db) = db_telegramMessages db @ [?m]"
      "\<forall>m\<in>set [?m]. tm_chatId m = tg_groupId tg \<and> tm_coinId m = None" by simp_all
    then show ?thesis by blast
  qed
qed

lemma drop_added:
  "ys = xs @ added \<Longrightarrow> take (length xs) ys = xs \<and> drop (length xs) ys = added"
  by simp

lemma posted_after_added:
  assumes "db_telegramMessages db' = db_telegramMessages db @ added"
    and "\<forall>m\<in>set added. tm_chatId m \<noteq> chatId"
  shows "isNewsPostedToDestination newsId chatId db' = isNewsPostedToDestination newsId chatId db"
  using assms by (auto simp: posted_to_destination_iff)

text \<open>
  Claim C2: a tweet cycle changes the coin and news documents in the \<^verbatim>\<open>isPosted\<close> flag only
  and writes no Telegram fact; a Telegram channel cycle changes them in the
  \<^verbatim>\<open>isTelegramPosted\<close> flag only, writes no tweet, and the facts it adds carry the channel's
  chat id; a group post changes no document and no tweet, and adds only facts that carry the
  group's chat id. Hence the items selected for a destination (by position in their
  collection) are the same before and after a publication to another destination; for
  the group after a channel cycle this needs the two chat ids to differ. All of this holds
  however the sends and the saves of the cycle go.
\<close>

theorem publishing_is_per_destination:
  assumes dest: "tg_channelId tg \<noteq> tg_groupId tg"
    and T: "T = processPendingTweets twitterCoins twitterNews db"
    and M: "M = processPendingMessages tg sendCoins sendNews db"
    and G: "G = processGroupNews tg send db"
  shows "map (\<lambda>c. c\<lparr>c_isPosted := False\<rparr>) (db_coins T) = map (\<lambda>c. c\<lparr>c_isPosted := False\<rparr>) (db_coins db)
       \<and> map (\<lambda>n. n\<lparr>n_isPosted := False\<rparr>) (db_news T) = map (\<lambda>n. n\<lparr>n_isPosted := False\<rparr>) (db_news db)
       \<and> db_telegramMessages T = db_telegramMessages db
       \<and> map (\<lambda>c. c\<lparr>c_isTelegramPosted := False\<rparr>) (db_coins M)
           = map (\<lambda>c. c\<lparr>c_isTelegramPosted := False\<rparr>) (db_coins db)
       \<and> map (\<lambda>n. n\<lparr>n_isTelegramPosted := False\<rparr>) (db_news M)
           = map (\<lambda>n. n\<lparr>n_isTelegramPosted := False\<rparr>) (db_news db)
       \<and> db_tweets M = db_tweets db
       \<and> take (length (db_telegramMessages db)) (db_telegramMessages M) = db_telegramMessages db
       \<and> list_all (\<lambda>m. tm_chatId m = tg_channelId tg)
            (drop (length (db_telegramMessages db)) (db_telegramMessages M))
       \<and> db_coins G = db_coins db \<and> db_news G = db_news db \<and> db_tweets G = db_tweets db
       \<and> take (length (db_telegramMessages db)) (db_telegramMessages G) = db_telegramMessages db
       \<and> list_all (\<lambda>m. tm_chatId m = tg_groupId tg \<and> tm_coinId m = None)
            (drop (length (db_telegramMessages db)) (db_telegramMessages G))
       \<and> map fst (telegram_unpostedCoins T) = map fst (telegram_unpostedCoins db)
       \<and> map fst (telegram_unpostedNews T) = map fst (telegram_unpostedNews db)
       \<and> map_option fst (groupNewsToPost tg T) = map_option fst (groupNewsToPost tg db)
       \<and> map fst (tweet_unpostedCoins M) = map fst (tweet_unpostedCoins db)
       \<and> map fst (tweet_unpostedNews M) = map fst (tweet_unpostedNews db)
       \<and> map_option fst (groupNewsToPost tg M) = map_option fst (groupNewsToPost tg db)
       \<and> tweet_unpostedCoins G = tweet_unpostedCoins db
       \<and> tweet_unpostedNews G = tweet_unpostedNews db
       \<and> telegram_unpostedCoins G = telegram_unpostedCoins db
       \<and> telegram_unpostedNews G = telegram_unpostedNews db"
proof -
  note ft = pendingTweets_frame[of twitterCoins twitterNews db, folded T]
  note fm = pendingMessages_frame[of tg sendCoins sendNews db, folded M]
  note fg = groupNews_frame[of tg send db, folded G]
  from pendingMessages_added[of tg sendCoins sendNews db, folded M] obtain am where
    am: "db_telegramMessages M = db_telegramMessages db @ am" "\<forall>m\<in>set am. tm_chatId m = tg_channelId tg"
    by blast
  from groupNews_added[of tg send db, folded G] obtain ag where
    ag: "db_telegramMessages G = db_telegramMessages db @ ag"
      "\<forall>m\<in>set ag. tm_chatId m = tg_groupId tg \<and> tm_coinId m = None"
    by blast
  have m7: "take (length (db_telegramMessages db)) (db_telegramMessages M) = db_telegramMessages db"
    and m8: "list_all (\<lambda>m. tm_chatId m = tg_channelId tg)
            (drop (length (db_telegramMessages db)) (db_telegramMessages M))"
    using am by (simp_all add: list_all_iff)
  have g4: "take (length (db_telegramMessages db)) (db_telegramMessages G) = db_telegramMessages db"
    and g5: "list_all (\<lambda>m. tm_chatId m = tg_groupId tg \<and> tm_coinId m = None)
            (drop (length (db_telegramMessages db)) (db_telegramMessages G))"
    using ag by (simp_all add: list_all_iff)
  \<comment> \<open>after the tweet cycle\<close>
  have t1: "map fst (telegram_unpostedCoins T) = map fst (telegram_unpostedCoins db)"
    unfolding telegram_unpostedCoins_def
    by (rule unposted_cong; rule map_proj[OF ft(1)]; simp)
  have t2: "map fst (telegram_unpostedNews T) = map fst (telegram_unpostedNews db)"
    unfolding telegram_unpostedNews_def
    by (rule unposted_cong; rule map_proj[OF ft(2)]; simp)
  have t3: "map_option fst (groupNewsToPost tg T) = map_option fst (groupNewsToPost tg db)"
  proof (rule groupNewsToPost_cong)
    show "map n_network (db_news T) = map n_network (db_news db)" by (rule map_proj[OF ft(2)]) simp
    show "map n_publishedAt (db_news T) = map n_publishedAt (db_news db)" by (rule map_proj[OF ft(2)]) simp
    show "map n_id (db_news T) = map n_id (db_news db)" by (rule map_proj[OF ft(2)]) simp
    show "\<And>newsId. isNewsPostedToDestination newsId (tg_groupId tg) T
                   = isNewsPostedToDestination newsId (tg_groupId tg) db"
      by (simp add: isNewsPostedToDestination_def ft(3))
  qed
  \<comment> \<open>after the channel cycle\<close>
  have c1: "map fst (tweet_unpostedCoins M) = map fst (tweet_unpostedCoins db)"
    unfolding tweet_unpostedCoins_def
    by (rule unposted_cong; rule map_proj[OF fm(1)]; simp)
  have c2: "map fst (tweet_unpostedNews M) = map fst (tweet_unpostedNews db)"
    unfolding tweet_unpostedNews_def
    by (rule unposted_cong; rule map_proj[OF fm(2)]; simp)
  have c3: "map_option fst (groupNewsToPost tg M) = map_option fst (groupNewsToPost tg db)"
  proof (rule groupNewsToPost_cong)
    show "map n_network (db_news M) = map n_network (db_news db)" by (rule map_proj[OF fm(2)]) simp
    show "map n_publishedAt (db_news M) = map n_publishedAt (db_news db)" by (rule map_proj[OF fm(2)]) simp
    show "map n_id (db_news M) = map n_id (db_news db)" by (rule map_proj[OF fm(2)]) simp
    from am(2) dest have "\<forall>m\<in>set am. tm_chatId m \<noteq> tg_groupId tg" by simp
    from posted_after_added[OF am(1) this]
    show "\<And>newsId. isNewsPostedToDestination newsId (tg_groupId tg) M
                   = isNewsPostedToDestination newsId (tg_groupId tg) db" .
  qed
  \<comment> \<open>after the group post\<close>
  have g6: "tweet_unpostedCoins G = tweet_unpostedCoins db"
    "tweet_unpostedNews G = tweet_unpostedNews db"
    "telegram_unpostedCoins G = telegram_unpostedCoins db"
    "telegram_unpostedNews G = telegram_unpostedNews db"
    by (simp_all add: tweet_unpostedCoins_def tweet_unpostedNews_def telegram_unpostedCoins_def
        telegram_unpostedNews_def fg)
  from ft fm m7 m8 fg g4 g5 t1 t2 t3 c1 c2 c3 g6 show ?thesis by blast
qed

lemma exampleStore_tweeted:
  "map c_isPosted
     (db_coins (processPendingTweets (\<lambda>i. (Some ''1780000000000000001'', BothSaved))
                  (\<lambda>i. (Some ''1780000000000000002'', BothSaved)) exampleStore)) = [True, True]
   \<and> map fst (telegram_unpostedCoins exampleStore) = [1, 0]"
  by code_simp

lemma exampleStore_messaged:
  "map n_isTelegramPosted
     (db_news (processPendingMessages exampleTelegram (\<lambda>i. (Some 41, BothSaved)) (\<lambda>i. (Some 42, BothSaved)) exampleStore))
     = [True]
   \<and> map_option fst (groupNewsToPost exampleTelegram exampleStore) = Some 0"
  by code_simp

theorem publishing_is_per_destination_witness:
  "tg_channelId exampleTelegram \<noteq> tg_groupId exampleTelegram
   \<and> map c_isPosted
       (db_coins (processPendingTweets (\<lambda>i. (Some ''1780000000000000001'', BothSaved))
                    (\<lambda>i. (Some ''1780000000000000002'', BothSaved)) exampleStore)) = [True, True]
   \<and> map fst (telegram_unpostedCoins
                (processPendingTweets (\<lambda>i. (Some ''1780000000000000001'', BothSaved))
                   (\<lambda>i. (Some ''1780000000000000002'', BothSaved)) exampleStore)) = [1, 0]
   \<and> map n_isTelegramPosted
       (db_news (processPendingMessages exampleTelegram (\<lambda>i. (Some 41, BothSaved)) (\<lambda>i. (Some 42, BothSaved)) exampleStore))
       = [True]
   \<and> map_option fst
       (groupNewsToPost exampleTelegram
          (processPendingMessages exampleTelegram (\<lambda>i. (Some 41, BothSaved)) (\<lambda>i. (Some 42, BothSaved)) exampleStore))
       = Some 0"
proof -
  have ne: "tg_channelId exampleTelegram \<noteq> tg_groupId exampleTelegram"
    by (simp add: exampleTelegram_def)
  from publishing_is_per_destination[OF ne refl refl refl,
      of "\<lambda>i. (Some ''1780000000000000001'', BothSaved)" "\<lambda>i. (Some ''1780000000000000002'', BothSaved)" exampleStore
         "\<lambda>i. (Some 41, BothSaved)" "\<lambda>i. (Some 42, BothSaved)" "\<lambda>i. (Some 43, True)"]
    ne exampleStore_tweeted exampleStore_messaged
  show ?thesis by simp
qed

end
